theory Spec2Isabelle
  imports Main "HOL-Library.Sublist"
begin

section \<open>RDF terms and the triple store\<close>

text \<open>
  The script \<^verbatim>\<open>scripts/enrichment/ncit_def_extractor.py\<close> works on an rdflib
  \<^verbatim>\<open>Graph\<close>. The library is not among the sources, so the store is a model: the
  interface is the one the specification gives for it (add, remove, match subjects, match
  objects, new anonymous node), and each operation is written as the source calls it.
\<close>

text \<open>
  Modelled from the spec: the terms of a triple (identifiers, anonymous nodes, typed or
  language-tagged literals); the library's term classes are not among the sources.
  A term is an IRI (\<^verbatim>\<open>URIRef\<close>), an anonymous node (\<^verbatim>\<open>BNode\<close>, carrying its
  identifier) or a literal (\<^verbatim>\<open>Literal(lexical, lang, datatype)\<close>). Two terms are equal
  when they are of the same kind and agree on every component, so a plain literal differs
  from an IRI, a typed literal and a language-tagged literal with the same text.
  A Python \<^verbatim>\<open>str\<close> is a \<open>string\<close> here, one \<open>char\<close> per code point, so that
  \<open>length\<close> is Python's \<^verbatim>\<open>len\<close>.
\<close>

datatype node = URIRef string | BNode string | Literal string "string option" "string option"

text \<open>\<^verbatim>\<open>str(term)\<close>: the IRI, the identifier of the anonymous node, the lexical form.\<close>

fun str_of :: "node \<Rightarrow> string" where
  "str_of (URIRef u) = u"
| "str_of (BNode b) = b"
| "str_of (Literal s lang dt) = s"

type_synonym triple = "node \<times> node \<times> node"

text \<open>
  Modelled from the spec: the graph, a set of triples held as one addressable store.
  A graph is a set of triples that is enumerated in some order: a list, kept free of
  duplicates by \<open>graph_add\<close>. The order of the list stands for the order in which the
  store yields its matches.
\<close>

type_synonym graph = "triple list"

text \<open>
  Modelled from the spec: \<^verbatim>\<open>add(triple)\<close> on a store with set semantics, called as
  \<^verbatim>\<open>g.add(t)\<close>. Adding a triple that is present changes nothing.
\<close>

definition graph_add :: "graph \<Rightarrow> triple \<Rightarrow> graph" where
  "graph_add g t = (if t \<in> set g then g else g @ [t])"

text \<open>
  Modelled from the spec: \<^verbatim>\<open>remove(triple)\<close>, called as \<^verbatim>\<open>g.remove((s, p, o))\<close> with
  all three terms given. That triple goes, if present.
\<close>

definition graph_remove :: "graph \<Rightarrow> triple \<Rightarrow> graph" where
  "graph_remove g t = removeAll t g"

text \<open>
  Modelled from the spec: \<^verbatim>\<open>matchSubjects(predicate)\<close>, a sequence of subjects. The
  source calls \<^verbatim>\<open>g.subjects(p, None)\<close> and leaves the library's \<^verbatim>\<open>unique\<close> argument
  at its default \<^verbatim>\<open>False\<close>: the sequence holds the subject of every triple with
  predicate \<open>p\<close>, one entry per matching triple, so a subject with two such triples comes
  twice. \<open>graph_subjects\<close> is that sequence for a graph that does not change while it is
  read. The loop of line 74 changes the graph while the generator runs; what it visits is
  \<open>migrate_objects\<close> below.
\<close>

definition graph_subjects :: "graph \<Rightarrow> node \<Rightarrow> node list" where
  "graph_subjects g p = map fst (filter (\<lambda>t. fst (snd t) = p) g)"

text \<open>
  Modelled from the spec: \<^verbatim>\<open>matchObjects(subject, predicate)\<close>, called as
  \<^verbatim>\<open>g.objects(s, p)\<close>: the object of every triple with subject \<open>s\<close> and predicate \<open>p\<close>.
\<close>

definition graph_objects :: "graph \<Rightarrow> node \<Rightarrow> node \<Rightarrow> node list" where
  "graph_objects g s p = map (\<lambda>t. snd (snd t)) (filter (\<lambda>t. fst t = s \<and> fst (snd t) = p) g)"

text \<open>
  Modelled from the spec: how the store walks the matches of \<^verbatim>\<open>(None, p, None)\<close>. The
  library's memory store keeps, for a predicate, its objects in the order in which they
  first came and, for each object, its subjects. The generator of
  \<^verbatim>\<open>g.subjects(p, None)\<close> takes the objects the predicate has when it starts and, on
  reaching an object, the subjects the graph has for it at that moment: a triple removed
  before its object is reached is not yielded.
\<close>

fun first_seen :: "'a list \<Rightarrow> 'a list" where
  "first_seen [] = []"
| "first_seen (x # xs) = x # removeAll x (first_seen xs)"

definition graph_predicate_objects :: "graph \<Rightarrow> node \<Rightarrow> node list" where
  "graph_predicate_objects g p =
     first_seen (map (\<lambda>t. snd (snd t)) (filter (\<lambda>t. fst (snd t) = p) g))"

definition graph_object_subjects :: "graph \<Rightarrow> node \<Rightarrow> node \<Rightarrow> node list" where
  "graph_object_subjects g p ob =
     map fst (filter (\<lambda>t. fst (snd t) = p \<and> snd (snd t) = ob) g)"

text \<open>
  Modelled from the spec: \<^verbatim>\<open>newAnonymousNode()\<close>, an opaque generated token, called as
  \<^verbatim>\<open>BNode()\<close>. The library draws a random identifier, so the node exists nowhere
  else; the model takes an identifier longer than those of all anonymous nodes of the
  graph at hand, which makes it differ from every node of that graph.
\<close>

fun bnode_len :: "node \<Rightarrow> nat" where
  "bnode_len (BNode b) = length b"
| "bnode_len (URIRef u) = 0"
| "bnode_len (Literal s lang dt) = 0"

fun triple_rank :: "triple \<Rightarrow> nat" where
  "triple_rank (s, p, ob) = max (bnode_len s) (max (bnode_len p) (bnode_len ob))"

definition graph_rank :: "graph \<Rightarrow> nat" where
  "graph_rank g = foldr max (map triple_rank g) 0"

definition new_BNode :: "graph \<Rightarrow> node" where
  "new_BNode g = BNode (replicate (Suc (graph_rank g)) (CHR ''N''))"

text \<open>
  Modelled from the spec: \<^verbatim>\<open>load(path)\<close>, called as \<^verbatim>\<open>g.parse(path)\<close> on the empty
  graph. The statements of the file are added one by one, so a statement that the file
  repeats is held once.
\<close>

definition Graph_parse :: "triple list \<Rightarrow> graph" where
  "Graph_parse stmts = foldl graph_add [] stmts"

section \<open>Namespaces and constants (lines 18 to 28)\<close>

definition RDF_type :: node where
  "RDF_type = URIRef ''http://www.w3.org/1999/02/22-rdf-syntax-ns#type''"

definition RDFS_seeAlso :: node where
  "RDFS_seeAlso = URIRef ''http://www.w3.org/2000/01/rdf-schema#seeAlso''"

definition RDFS_comment :: node where
  "RDFS_comment = URIRef ''http://www.w3.org/2000/01/rdf-schema#comment''"

definition OWL_Axiom :: node where
  "OWL_Axiom = URIRef ''http://www.w3.org/2002/07/owl#Axiom''"

definition OWL_annotatedSource :: node where
  "OWL_annotatedSource = URIRef ''http://www.w3.org/2002/07/owl#annotatedSource''"

definition OWL_annotatedProperty :: node where
  "OWL_annotatedProperty = URIRef ''http://www.w3.org/2002/07/owl#annotatedProperty''"

definition OWL_annotatedTarget :: node where
  "OWL_annotatedTarget = URIRef ''http://www.w3.org/2002/07/owl#annotatedTarget''"

definition OIO :: string where
  "OIO = ''http://www.geneontology.org/formats/oboInOwl#''"

definition IAO_DEF :: node where
  "IAO_DEF = URIRef ''http://purl.obolibrary.org/obo/IAO_0000115''"

definition HAS_SYN :: node where
  "HAS_SYN = URIRef (OIO @ ''hasSynonym'')"

definition HAS_XREF :: node where
  "HAS_XREF = URIRef (OIO @ ''hasDbXref'')"

section \<open>graft_axiom (lines 31 to 52)\<close>

definition graft_axiom :: "graph \<Rightarrow> node \<Rightarrow> node \<Rightarrow> node \<Rightarrow> node \<Rightarrow> graph" where
  "graft_axiom g subj prop tgt_literal xref_literal =
     (let g1 = graph_add g (subj, prop, tgt_literal);
          ax = new_BNode g1;
          g2 = graph_add g1 (ax, RDF_type, OWL_Axiom);
          g3 = graph_add g2 (ax, OWL_annotatedSource, subj);
          g4 = graph_add g3 (ax, OWL_annotatedProperty, prop);
          g5 = graph_add g4 (ax, OWL_annotatedTarget, tgt_literal)
      in graph_add g5 (ax, HAS_XREF, xref_literal))"

section \<open>migrate (lines 55 to 104)\<close>

text \<open>Line 77: the cross-reference text, prefixed with \<^verbatim>\<open>NCIT:\<close> unless it is already.\<close>

definition ncit_id_of :: "string \<Rightarrow> string" where
  "ncit_id_of ncit_raw = (if prefix ''NCIT:'' ncit_raw then ncit_raw else ''NCIT:'' @ ncit_raw)"

text \<open>
  Lines 84 and 85: \<^verbatim>\<open>sorted\<close> is stable, as \<open>sort_key\<close> is; the first entry of the
  sorted list is the name, the last one the definition. Both are read only from a list of
  two or more comments.
\<close>

definition coms_sorted_of :: "node list \<Rightarrow> node list" where
  "coms_sorted_of coms = sort_key (\<lambda>lit. length (str_of lit)) coms"

datatype exn = StopIteration | OSError string

record run =
  graph :: graph
  processed_count :: nat

text \<open>
  The body of the loop (lines 75 to 96) for one subject \<open>cls\<close>. \<^verbatim>\<open>next\<close> on an
  iterator with no element raises \<^verbatim>\<open>StopIteration\<close>, which nothing catches.
\<close>

definition migrate_body :: "node \<Rightarrow> run \<Rightarrow> exn + run" where
  "migrate_body cls r =
     (case graph_objects (graph r) cls RDFS_seeAlso of
        [] \<Rightarrow> Inl StopIteration
      | first # others \<Rightarrow>
          (let ncit_raw = str_of first;
               ncit_id = ncit_id_of ncit_raw;
               xref_lit = Literal ncit_id None None;
               coms = graph_objects (graph r) cls RDFS_comment
           in if length coms < 2 then Inr r
              else
                (let coms_sorted = coms_sorted_of coms;
                     name_lit = hd coms_sorted;
                     def_lit = last coms_sorted;
                     g1 = graft_axiom (graph r) cls IAO_DEF def_lit xref_lit;
                     g2 = graft_axiom g1 cls HAS_SYN name_lit xref_lit;
                     g3 = graph_remove g2 (cls, RDFS_comment, name_lit);
                     g4 = graph_remove g3 (cls, RDFS_comment, def_lit);
                     g5 = graph_remove g4 (cls, RDFS_seeAlso, Literal ncit_raw None None)
                 in Inr \<lparr>graph = g5, processed_count = processed_count r + 1\<rparr>)))"

text \<open>
  The loop body over a sequence of subjects that the generator of line 74 yields in one
  piece. The sequence is an argument, so that what is proved of \<open>migrate_loop\<close> holds for
  every enumeration.
\<close>

fun migrate_loop :: "node list \<Rightarrow> run \<Rightarrow> exn + run" where
  "migrate_loop [] r = Inr r"
| "migrate_loop (cls # rest) r =
     (case migrate_body cls r of
        Inl e \<Rightarrow> Inl e
      | Inr r' \<Rightarrow> migrate_loop rest r')"

text \<open>
  The loop of line 74 as the generator feeds it: for each see-also object in turn, the
  subjects that the graph, as the passes so far have left it, holds for that object.
\<close>

fun migrate_objects :: "node list \<Rightarrow> run \<Rightarrow> exn + run" where
  "migrate_objects [] r = Inr r"
| "migrate_objects (ob # rest) r =
     (case migrate_loop (graph_object_subjects (graph r) RDFS_seeAlso ob) r of
        Inl e \<Rightarrow> Inl e
      | Inr r' \<Rightarrow> migrate_objects rest r')"

text \<open>
  Lines 72 to 96 on a loaded graph: the see-also objects are those of the graph when the
  loop starts.
\<close>

definition migrate_pass :: "graph \<Rightarrow> exn + run" where
  "migrate_pass g =
     migrate_objects (graph_predicate_objects g RDFS_seeAlso)
       \<lparr>graph = g, processed_count = 0\<rparr>"

section \<open>Files, console and exit\<close>

text \<open>
  What the script finds outside itself is an argument: whether a path exists and is a
  regular file, whether the parent directories can be made (\<open>Some e\<close>: the call raises),
  the statements a file parses to (\<open>Inl e\<close>: the parser raises) and whether the graph can
  be written (\<open>Some e\<close>: the writer raises).
\<close>

record env =
  path_exists :: "string \<Rightarrow> bool"
  path_is_file :: "string \<Rightarrow> bool"
  mkdir_parents :: "string \<Rightarrow> string option"
  parse_file :: "string \<Rightarrow> string + triple list"
  serialize_file :: "string \<Rightarrow> graph \<Rightarrow> string option"

text \<open>The lines the script prints, and what it does to the file system, in order.\<close>

datatype message =
    Loaded string
  | ErrorLoading string string
  | Processed nat
  | Saved string
  | ErrorSaving string string
  | DoesNotExist string
  | NotAFile string
  | SourceFile string
  | DestinationFile string

datatype event =
    Print message
  | ReadFile string
  | MkdirParents string
  | WriteFile string graph

text \<open>
  How a call ends: it returns a value, it leaves through \<^verbatim>\<open>sys.exit(n)\<close>, or an
  exception escapes. \<^verbatim>\<open>migrate\<close> and \<^verbatim>\<open>main\<close> have no \<^verbatim>\<open>return\<close> statement: they
  return \<^verbatim>\<open>None\<close>.
\<close>

datatype pyval = PyNone | PyInt nat

datatype ending = Returned pyval | SysExit nat | Uncaught exn

fun exit_code :: "ending \<Rightarrow> nat" where
  "exit_code (Returned v) = 0"
| "exit_code (SysExit n) = n"
| "exit_code (Uncaught e) = 1"

definition migrate :: "env \<Rightarrow> string \<Rightarrow> string \<Rightarrow> event list \<times> ending" where
  "migrate env in_path out_path =
     (case parse_file env in_path of
        Inl e \<Rightarrow> ([ReadFile in_path, Print (ErrorLoading in_path e)], SysExit 1)
      | Inr stmts \<Rightarrow>
          (let loaded = [ReadFile in_path, Print (Loaded in_path)] in
           case migrate_pass (Graph_parse stmts) of
             Inl x \<Rightarrow> (loaded, Uncaught x)
           | Inr r \<Rightarrow>
               (case serialize_file env out_path (graph r) of
                  Some e \<Rightarrow>
                    (loaded @ [WriteFile out_path (graph r), Print (ErrorSaving out_path e)],
                     SysExit 1)
                | None \<Rightarrow>
                    (loaded @ [WriteFile out_path (graph r),
                               Print (Processed (processed_count r)),
                               Print (Saved out_path)],
                     Returned PyNone))))"

text \<open>\<^verbatim>\<open>main\<close> (lines 107 to 160), after the arguments are parsed.\<close>

definition main :: "env \<Rightarrow> string \<Rightarrow> string \<Rightarrow> bool \<Rightarrow> event list \<times> ending" where
  "main env source_file destination_file verbose =
     (if \<not> path_exists env source_file then
        ([Print (DoesNotExist source_file)], SysExit 1)
      else if \<not> path_is_file env source_file then
        ([Print (NotAFile source_file)], SysExit 1)
      else
        (case mkdir_parents env destination_file of
           Some e \<Rightarrow> ([MkdirParents destination_file], Uncaught (OSError e))
         | None \<Rightarrow>
             (let started = MkdirParents destination_file #
                    (if verbose
                     then [Print (SourceFile source_file), Print (DestinationFile destination_file)]
                     else []);
                  (evs, e) = migrate env source_file destination_file
              in (started @ evs, (case e of Returned v \<Rightarrow> Returned PyNone | other \<Rightarrow> other)))))"

text \<open>An event that creates or changes something on the file system.\<close>

fun writes :: "event \<Rightarrow> bool" where
  "writes (MkdirParents p) = True"
| "writes (WriteFile p g) = True"
| "writes (Print m) = False"
| "writes (ReadFile p) = False"

text \<open>The five triples that describe the reified axiom \<open>ax\<close> (lines 48 to 52).\<close>

definition axiom_triples :: "node \<Rightarrow> node \<Rightarrow> node \<Rightarrow> node \<Rightarrow> node \<Rightarrow> triple list" where
  "axiom_triples ax subj prop tgt xref =
     [(ax, RDF_type, OWL_Axiom), (ax, OWL_annotatedSource, subj),
      (ax, OWL_annotatedProperty, prop), (ax, OWL_annotatedTarget, tgt), (ax, HAS_XREF, xref)]"

text \<open>
  Lines 88 to 94 as one function of the graph, the chosen literals and the raw see-also
  text: the two grafts and the three removals. It is used to state what one pass of the
  loop body does.
\<close>

definition rewrite_class :: "graph \<Rightarrow> node \<Rightarrow> node \<Rightarrow> node \<Rightarrow> string \<Rightarrow> graph" where
  "rewrite_class g cls name_lit def_lit ncit_raw =
     graph_remove
       (graph_remove
          (graph_remove
             (graft_axiom
                (graft_axiom g cls IAO_DEF def_lit (Literal (ncit_id_of ncit_raw) None None))
                cls HAS_SYN name_lit (Literal (ncit_id_of ncit_raw) None None))
             (cls, RDFS_comment, name_lit))
          (cls, RDFS_comment, def_lit))
       (cls, RDFS_seeAlso, Literal ncit_raw None None)"

section \<open>Example inputs\<close>

text \<open>An environment in which every file operation succeeds and the source parses to \<open>stmts\<close>.\<close>

definition ok_env :: "triple list \<Rightarrow> env" where
  "ok_env stmts = \<lparr>path_exists = (\<lambda>p. True), path_is_file = (\<lambda>p. True),
     mkdir_parents = (\<lambda>p. None), parse_file = (\<lambda>p. Inr stmts),
     serialize_file = (\<lambda>p g. None)\<rparr>"

text \<open>The end-to-end scenario of the specification: one class, one see-also, two comments.\<close>

definition ex_C123 :: node where
  "ex_C123 = URIRef ''http://example.org/C123''"

definition ex_short :: node where
  "ex_short = Literal ''Short name'' None None"

definition ex_long :: node where
  "ex_long = Literal ''A much longer descriptive definition of the concept.'' None None"

definition ex_input :: "triple list" where
  "ex_input =
     [(ex_C123, RDFS_seeAlso, Literal ''C999'' None None),
      (ex_C123, RDFS_comment, ex_short),
      (ex_C123, RDFS_comment, ex_long)]"

definition ex_output :: graph where
  "ex_output =
     [(ex_C123, IAO_DEF, ex_long),
      (BNode ''N'', RDF_type, OWL_Axiom),
      (BNode ''N'', OWL_annotatedSource, ex_C123),
      (BNode ''N'', OWL_annotatedProperty, IAO_DEF),
      (BNode ''N'', OWL_annotatedTarget, ex_long),
      (BNode ''N'', HAS_XREF, Literal ''NCIT:C999'' None None),
      (ex_C123, HAS_SYN, ex_short),
      (BNode ''NN'', RDF_type, OWL_Axiom),
      (BNode ''NN'', OWL_annotatedSource, ex_C123),
      (BNode ''NN'', OWL_annotatedProperty, HAS_SYN),
      (BNode ''NN'', OWL_annotatedTarget, ex_short),
      (BNode ''NN'', HAS_XREF, Literal ''NCIT:C999'' None None)]"

text \<open>The scenario with the see-also object given as an IRI, and as a language-tagged literal.\<close>

definition ex_iri_input :: "triple list" where
  "ex_iri_input =
     [(ex_C123, RDFS_seeAlso, URIRef ''http://purl.obolibrary.org/obo/NCIT_C999''),
      (ex_C123, RDFS_comment, ex_short),
      (ex_C123, RDFS_comment, ex_long)]"

definition ex_lang_input :: "triple list" where
  "ex_lang_input =
     [(ex_C123, RDFS_seeAlso, Literal ''C999'' (Some ''en'') None),
      (ex_C123, RDFS_comment, ex_short),
      (ex_C123, RDFS_comment, ex_long)]"

text \<open>One class with two see-also triples and four comments.\<close>

definition ex_twice_input :: "triple list" where
  "ex_twice_input =
     [(ex_C123, RDFS_seeAlso, Literal ''C999'' None None),
      (ex_C123, RDFS_seeAlso, Literal ''C1000'' None None),
      (ex_C123, RDFS_comment, Literal ''HPV'' None None),
      (ex_C123, RDFS_comment, Literal ''Papillomavirus'' None None),
      (ex_C123, RDFS_comment, Literal ''Human papillomavirus'' None None),
      (ex_C123, RDFS_comment, Literal ''A virus that infects skin and mucosa.'' None None)]"

text \<open>The scenario next to a second class that has a see-also triple and one comment.\<close>

definition ex_C456 :: node where
  "ex_C456 = URIRef ''http://example.org/C456''"

definition ex_skip_input :: "triple list" where
  "ex_skip_input =
     [(ex_C123, RDFS_seeAlso, Literal ''C999'' None None),
      (ex_C123, RDFS_comment, ex_short),
      (ex_C123, RDFS_comment, ex_long),
      (ex_C456, RDFS_seeAlso, Literal ''C1000'' None None),
      (ex_C456, RDFS_comment, Literal ''Only one comment'' None None)]"

text \<open>One class whose two comments have the same length.\<close>

definition ex_tie_run :: run where
  "ex_tie_run =
     \<lparr>graph =
        [(ex_C123, RDFS_seeAlso, Literal ''C999'' None None),
         (ex_C123, RDFS_comment, Literal ''HPV16'' None None),
         (ex_C123, RDFS_comment, Literal ''HPV18'' None None)],
      processed_count = 0\<rparr>"

text \<open>The scenario with the long comment first, and with one statement repeated.\<close>

definition ex_long_first_run :: run where
  "ex_long_first_run =
     \<lparr>graph =
        [(ex_C123, RDFS_seeAlso, Literal ''C999'' None None),
         (ex_C123, RDFS_comment, ex_long),
         (ex_C123, RDFS_comment, ex_short)],
      processed_count = 0\<rparr>"

definition ex_reordered_input :: "triple list" where
  "ex_reordered_input =
     [(ex_C123, RDFS_comment, ex_long),
      (ex_C123, RDFS_seeAlso, Literal ''C999'' None None),
      (ex_C123, RDFS_comment, ex_short),
      (ex_C123, RDFS_seeAlso, Literal ''C999'' None None)]"

text \<open>
  A class whose first see-also object, as \<^verbatim>\<open>g.objects\<close> yields it, is not the object
  under which the generator of line 74 first yields the class.
\<close>

definition ex_B :: node where
  "ex_B = URIRef ''http://example.org/B''"

definition ex_late_input :: "triple list" where
  "ex_late_input =
     [(ex_B, RDFS_seeAlso, Literal ''C1'' None None),
      (ex_C123, RDFS_seeAlso, Literal ''C2'' None None),
      (ex_C123, RDFS_seeAlso, Literal ''C1'' None None),
      (ex_C123, RDFS_comment, Literal ''HPV'' None None),
      (ex_C123, RDFS_comment, Literal ''Papillomavirus'' None None),
      (ex_C123, RDFS_comment, Literal ''Human papillomavirus'' None None),
      (ex_C123, RDFS_comment, Literal ''A virus that infects skin and mucosa.'' None None)]"

text \<open>An environment in which no path exists.\<close>

definition missing_env :: env where
  "missing_env = \<lparr>path_exists = (\<lambda>p. False), path_is_file = (\<lambda>p. False),
     mkdir_parents = (\<lambda>p. None), parse_file = (\<lambda>p. Inl ''no such file''),
     serialize_file = (\<lambda>p g. None)\<rparr>"

section \<open>Cross-reference normalisation\<close>

text \<open>
  C8. Normalisation is idempotent; a text that already starts with \<^verbatim>\<open>NCIT:\<close> is
  returned unchanged, so the prefix is never doubled, and every other text gets the prefix
  prepended once.
\<close>

theorem ncit_id_of_idempotent:
  "ncit_id_of (ncit_id_of t) = ncit_id_of t
   \<and> ncit_id_of (''NCIT:'' @ t) = ''NCIT:'' @ t
   \<and> (prefix ''NCIT:'' t \<longrightarrow> ncit_id_of t = t)
   \<and> (\<not> prefix ''NCIT:'' t \<longrightarrow> ncit_id_of t = ''NCIT:'' @ t)"
  by (simp add: ncit_id_of_def)

theorem ncit_id_of_idempotent_witness:
  "ncit_id_of (ncit_id_of ''C999'') = ''NCIT:C999''
   \<and> ncit_id_of ''C999'' = ''NCIT:C999''
   \<and> ncit_id_of ''NCIT:C999'' = ''NCIT:C999''
   \<and> \<not> prefix ''NCIT:'' ''C999'' \<and> prefix ''NCIT:'' ''NCIT:C999''"
  using ncit_id_of_idempotent [of "''C999''"] ncit_id_of_idempotent [of "''NCIT:C999''"]
  by simp

section \<open>The graft operation\<close>

lemma set_graph_add: "set (graph_add g t) = insert t (set g)"
  by (auto simp: graph_add_def)

lemma set_graph_remove: "set (graph_remove g t) = set g - {t}"
  by (auto simp: graph_remove_def)

lemma distinct_graph_add: "distinct g \<Longrightarrow> distinct (graph_add g t)"
  by (simp add: graph_add_def)

lemma distinct_graph_remove: "distinct g \<Longrightarrow> distinct (graph_remove g t)"
  by (simp add: graph_remove_def distinct_removeAll)

lemma triple_rank_le: "t \<in> set g \<Longrightarrow> triple_rank t \<le> graph_rank g"
  unfolding graph_rank_def by (induction g) auto

lemma bnode_len_new_BNode: "bnode_len (new_BNode g) = Suc (graph_rank g)"
  by (simp add: new_BNode_def)

lemma new_BNode_fresh_subject: "(s, p, ob) \<in> set g \<Longrightarrow> s \<noteq> new_BNode g"
proof
  assume mem: "(s, p, ob) \<in> set g" and eq: "s = new_BNode g"
  from mem have "triple_rank (s, p, ob) \<le> graph_rank g" by (rule triple_rank_le)
  then have "bnode_len s \<le> graph_rank g" by simp
  with eq show False by (simp add: bnode_len_new_BNode)
qed

lemma new_BNode_fresh_object: "(s, p, ob) \<in> set g \<Longrightarrow> ob \<noteq> new_BNode g"
proof
  assume mem: "(s, p, ob) \<in> set g" and eq: "ob = new_BNode g"
  from mem have "triple_rank (s, p, ob) \<le> graph_rank g" by (rule triple_rank_le)
  then have "bnode_len ob \<le> graph_rank g" by simp
  with eq show False by (simp add: bnode_len_new_BNode)
qed

lemma axiom_preds_distinct:
  "distinct [RDF_type, OWL_annotatedSource, OWL_annotatedProperty, OWL_annotatedTarget, HAS_XREF]"
  by (simp add: RDF_type_def OWL_annotatedSource_def OWL_annotatedProperty_def
      OWL_annotatedTarget_def HAS_XREF_def OIO_def)

lemma graph_add_absent: "t \<notin> set g \<Longrightarrow> graph_add g t = g @ [t]"
  by (simp add: graph_add_def)

lemma graft_axiom_append:
  "graft_axiom g subj prop tgt xref =
     graph_add g (subj, prop, tgt)
       @ axiom_triples (new_BNode (graph_add g (subj, prop, tgt))) subj prop tgt xref"
proof -
  define g1 where "g1 = graph_add g (subj, prop, tgt)"
  define ax where "ax = new_BNode g1"
  have fresh: "(ax, p, ob) \<notin> set g1" for p ob
    using new_BNode_fresh_subject [of ax p ob g1] by (auto simp: ax_def)
  have d: "distinct [RDF_type, OWL_annotatedSource, OWL_annotatedProperty, OWL_annotatedTarget, HAS_XREF]"
    by (rule axiom_preds_distinct)
  have 2: "graph_add g1 (ax, RDF_type, OWL_Axiom) = g1 @ [(ax, RDF_type, OWL_Axiom)]"
    by (rule graph_add_absent) (rule fresh)
  have 3: "graph_add (g1 @ [(ax, RDF_type, OWL_Axiom)]) (ax, OWL_annotatedSource, subj)
      = g1 @ [(ax, RDF_type, OWL_Axiom), (ax, OWL_annotatedSource, subj)]"
    using d fresh by (auto simp: graph_add_def)
  have 4: "graph_add (g1 @ [(ax, RDF_type, OWL_Axiom), (ax, OWL_annotatedSource, subj)])
        (ax, OWL_annotatedProperty, prop)
      = g1 @ [(ax, RDF_type, OWL_Axiom), (ax, OWL_annotatedSource, subj),
              (ax, OWL_annotatedProperty, prop)]"
    using d fresh by (auto simp: graph_add_def)
  have 5: "graph_add (g1 @ [(ax, RDF_type, OWL_Axiom), (ax, OWL_annotatedSource, subj),
              (ax, OWL_annotatedProperty, prop)]) (ax, OWL_annotatedTarget, tgt)
      = g1 @ [(ax, RDF_type, OWL_Axiom), (ax, OWL_annotatedSource, subj),
              (ax, OWL_annotatedProperty, prop), (ax, OWL_annotatedTarget, tgt)]"
    using d fresh by (auto simp: graph_add_def)
  have 6: "graph_add (g1 @ [(ax, RDF_type, OWL_Axiom), (ax, OWL_annotatedSource, subj),
              (ax, OWL_annotatedProperty, prop), (ax, OWL_annotatedTarget, tgt)]) (ax, HAS_XREF, xref)
      = g1 @ axiom_triples ax subj prop tgt xref"
    using d fresh by (auto simp: graph_add_def axiom_triples_def)
  have "graft_axiom g subj prop tgt xref = g1 @ axiom_triples ax subj prop tgt xref"
    unfolding graft_axiom_def Let_def g1_def [symmetric] ax_def [symmetric]
    by (simp only: 2 3 4 5 6)
  then show ?thesis by (simp only: g1_def ax_def)
qed

lemma new_BNode_not_subject: "new_BNode g \<notin> fst ` set g"
  using new_BNode_fresh_subject [of "new_BNode g" _ _ g] by force

lemma new_BNode_not_object: "new_BNode g \<notin> (snd \<circ> snd) ` set g"
  using new_BNode_fresh_object [of _ _ "new_BNode g" g] by force

text \<open>
  C10. \<open>graft_axiom\<close> removes nothing: a triple of the graph before the call is a triple
  of the graph after it, whatever the arguments.
\<close>

theorem graft_axiom_keeps:
  "t \<in> set g \<Longrightarrow> t \<in> set (graft_axiom g subj prop tgt_literal xref_literal)"
  by (simp add: graft_axiom_def Let_def set_graph_add)

theorem graft_axiom_keeps_witness:
  "(URIRef ''ex:C123'', RDFS_seeAlso, Literal ''C999'' None None)
     \<in> set (graft_axiom [(URIRef ''ex:C123'', RDFS_seeAlso, Literal ''C999'' None None)]
          (URIRef ''ex:C123'') HAS_SYN (Literal ''Short name'' None None)
          (Literal ''NCIT:C999'' None None))"
  using graft_axiom_keeps [of "(URIRef ''ex:C123'', RDFS_seeAlso, Literal ''C999'' None None)"
      "[(URIRef ''ex:C123'', RDFS_seeAlso, Literal ''C999'' None None)]"]
  by simp

text \<open>
  C2 (as amended). One call of \<open>graft_axiom\<close> adds the assertion triple \<open>(S, P, L)\<close> and
  the five triples of one anonymous node that occurs nowhere in the graph before the call.
  The five are always new; the assertion triple is new unless the graph already had it, so
  the graph grows by six triples, or by five when \<open>(S, P, L)\<close> was present.
\<close>

theorem graft_axiom_grows:
  "set (graft_axiom g S P L X) =
      set g \<union> {(S, P, L)} \<union> set (axiom_triples (new_BNode (graph_add g (S, P, L))) S P L X)
   \<and> new_BNode (graph_add g (S, P, L)) \<notin> fst ` set g
   \<and> new_BNode (graph_add g (S, P, L)) \<notin> (snd \<circ> snd) ` set g
   \<and> new_BNode (graph_add g (S, P, L)) \<noteq> S
   \<and> distinct (axiom_triples (new_BNode (graph_add g (S, P, L))) S P L X)
   \<and> length (graft_axiom g S P L X) = length g + (if (S, P, L) \<in> set g then 5 else 6)"
proof -
  define g1 where "g1 = graph_add g (S, P, L)"
  define ax where "ax = new_BNode g1"
  have sub: "set g \<subseteq> set g1" and mem: "(S, P, L) \<in> set g1"
    by (auto simp: g1_def set_graph_add)
  have a: "set (graft_axiom g S P L X) = set g \<union> {(S, P, L)} \<union> set (axiom_triples ax S P L X)"
    by (simp add: graft_axiom_append g1_def [symmetric] ax_def [symmetric]) (auto simp: g1_def set_graph_add)
  have b: "ax \<notin> fst ` set g"
    using new_BNode_not_subject [of g1] sub unfolding ax_def by blast
  have c: "ax \<notin> (snd \<circ> snd) ` set g"
    using new_BNode_not_object [of g1] sub unfolding ax_def by blast
  have d: "ax \<noteq> S"
    using new_BNode_fresh_subject [OF mem] by (simp add: ax_def)
  have e: "distinct (axiom_triples ax S P L X)"
    using axiom_preds_distinct by (simp add: axiom_triples_def)
  have f: "length (graft_axiom g S P L X) = length g + (if (S, P, L) \<in> set g then 5 else 6)"
    by (simp add: graft_axiom_append graph_add_def axiom_triples_def)
  from a b c d e f show ?thesis
    unfolding ax_def g1_def by blast
qed

theorem graft_axiom_grows_witness:
  "length (graft_axiom [] ex_C123 HAS_SYN ex_short (Literal ''NCIT:C999'' None None)) = 6
   \<and> set (graft_axiom [] ex_C123 HAS_SYN ex_short (Literal ''NCIT:C999'' None None)) =
       {(ex_C123, HAS_SYN, ex_short)}
         \<union> set (axiom_triples (BNode ''N'') ex_C123 HAS_SYN ex_short (Literal ''NCIT:C999'' None None))"
  using graft_axiom_grows [of "[]" ex_C123 HAS_SYN ex_short "Literal ''NCIT:C999'' None None"]
  by (simp add: graph_add_def new_BNode_def graph_rank_def ex_C123_def ex_short_def HAS_SYN_def)

text \<open>
  C2 fails as stated: on a graph that already holds \<open>(S, P, L)\<close> the call adds five
  triples, not six.
\<close>

theorem graft_axiom_present_counterexample:
  "(ex_C123, HAS_SYN, ex_short) \<in> set [(ex_C123, HAS_SYN, ex_short)]
   \<and> length [(ex_C123, HAS_SYN, ex_short)] = 1
   \<and> length (graft_axiom [(ex_C123, HAS_SYN, ex_short)] ex_C123 HAS_SYN ex_short
        (Literal ''NCIT:C999'' None None)) = 6
   \<and> length (graft_axiom [(ex_C123, HAS_SYN, ex_short)] ex_C123 HAS_SYN ex_short
        (Literal ''NCIT:C999'' None None)) \<noteq> length [(ex_C123, HAS_SYN, ex_short)] + 6"
  by (simp add: graft_axiom_append graph_add_def axiom_triples_def)

section \<open>The loop body and the store\<close>

lemma migrate_body_eq:
  "migrate_body cls r =
     (case graph_objects (graph r) cls RDFS_seeAlso of
        [] \<Rightarrow> Inl StopIteration
      | first # others \<Rightarrow>
          if length (graph_objects (graph r) cls RDFS_comment) < 2 then Inr r
          else Inr \<lparr>graph = rewrite_class (graph r) cls
                       (hd (coms_sorted_of (graph_objects (graph r) cls RDFS_comment)))
                       (last (coms_sorted_of (graph_objects (graph r) cls RDFS_comment)))
                       (str_of first),
                    processed_count = processed_count r + 1\<rparr>)"
  by (simp add: migrate_body_def rewrite_class_def Let_def split: list.split)

lemma preds_distinct:
  "distinct [RDFS_seeAlso, RDFS_comment, IAO_DEF, HAS_SYN, RDF_type, OWL_annotatedSource,
     OWL_annotatedProperty, OWL_annotatedTarget, HAS_XREF]"
  by (simp add: RDFS_seeAlso_def RDFS_comment_def IAO_DEF_def HAS_SYN_def RDF_type_def
      OWL_annotatedSource_def OWL_annotatedProperty_def OWL_annotatedTarget_def HAS_XREF_def
      OIO_def)

lemma filter_graph_add: "\<not> Q t \<Longrightarrow> filter Q (graph_add g t) = filter Q g"
  by (simp add: graph_add_def)

lemma filter_graph_remove: "\<not> Q t \<Longrightarrow> filter Q (graph_remove g t) = filter Q g"
  unfolding graph_remove_def by (induction g) auto

lemma filter_graft_axiom:
  assumes "\<not> Q (s, p, l)"
    and "\<forall>t\<in>set (axiom_triples (new_BNode (graph_add g (s, p, l))) s p l x). \<not> Q t"
  shows "filter Q (graft_axiom g s p l x) = filter Q g"
  using assms by (simp add: graft_axiom_append filter_graph_add filter_empty_conv)

lemma objects_graft_axiom:
  assumes "q \<noteq> p" and "q = RDFS_seeAlso \<or> q = RDFS_comment"
  shows "graph_objects (graft_axiom g s p l x) c q = graph_objects g c q"
proof -
  have "filter (\<lambda>t. fst t = c \<and> fst (snd t) = q) (graft_axiom g s p l x)
      = filter (\<lambda>t. fst t = c \<and> fst (snd t) = q) g"
  proof (rule filter_graft_axiom)
    show "\<not> (fst (s, p, l) = c \<and> fst (snd (s, p, l)) = q)" using assms(1) by simp
    show "\<forall>t\<in>set (axiom_triples (new_BNode (graph_add g (s, p, l))) s p l x).
            \<not> (fst t = c \<and> fst (snd t) = q)"
      using assms(2) preds_distinct by (auto simp: axiom_triples_def)
  qed
  then show ?thesis by (simp add: graph_objects_def)
qed

lemma objects_graph_remove_other:
  "s \<noteq> c \<or> p \<noteq> q \<Longrightarrow> graph_objects (graph_remove g (s, p, ob)) c q = graph_objects g c q"
  by (auto simp: graph_objects_def filter_graph_remove)

lemma distinct_graft_axiom: "distinct g \<Longrightarrow> distinct (graft_axiom g s p l x)"
  by (simp add: graft_axiom_def Let_def distinct_graph_add)

lemma distinct_rewrite_class: "distinct g \<Longrightarrow> distinct (rewrite_class g cls n d raw)"
  by (simp add: rewrite_class_def distinct_graph_remove distinct_graft_axiom)

lemma distinct_Graph_parse: "distinct (Graph_parse stmts)"
proof -
  have "distinct acc \<Longrightarrow> distinct (foldl graph_add acc stmts)" for acc
    by (induction stmts arbitrary: acc) (simp_all add: distinct_graph_add)
  then show ?thesis by (simp add: Graph_parse_def)
qed

lemma length_filter_removeAll:
  "distinct g \<Longrightarrow> length (filter Q g) \<le> Suc (length (filter Q (removeAll t g)))"
  by (induction g) auto

lemma objects_rewrite_other:
  assumes "q = RDFS_seeAlso \<or> q = RDFS_comment" and "c \<noteq> cls"
  shows "graph_objects (rewrite_class g cls n d raw) c q = graph_objects g c q"
proof -
  have neq: "q \<noteq> IAO_DEF" "q \<noteq> HAS_SYN" using assms(1) preds_distinct by auto
  show ?thesis
    unfolding rewrite_class_def using assms(2)
    by (simp add: objects_graph_remove_other objects_graft_axiom [OF neq(1) assms(1)]
        objects_graft_axiom [OF neq(2) assms(1)])
qed

lemma seeAlso_rewrite_same:
  assumes "distinct g"
  shows "length (graph_objects g cls RDFS_seeAlso)
       \<le> Suc (length (graph_objects (rewrite_class g cls n d raw) cls RDFS_seeAlso))"
proof -
  let ?Q = "\<lambda>t. fst t = cls \<and> fst (snd t) = RDFS_seeAlso"
  define h where "h = graph_remove (graph_remove
          (graft_axiom
                (graft_axiom g cls IAO_DEF d (Literal (ncit_id_of raw) None None))
                cls HAS_SYN n (Literal (ncit_id_of raw) None None))
             (cls, RDFS_comment, n)) (cls, RDFS_comment, d)"
  have neq: "RDFS_seeAlso \<noteq> IAO_DEF" "RDFS_seeAlso \<noteq> HAS_SYN" "RDFS_comment \<noteq> RDFS_seeAlso"
    using preds_distinct by auto
  have same: "graph_objects h cls RDFS_seeAlso = graph_objects g cls RDFS_seeAlso"
    unfolding h_def using neq(3)
    by (simp add: objects_graph_remove_other objects_graft_axiom [OF neq(1)]
        objects_graft_axiom [OF neq(2)])
  have dh: "distinct h"
    unfolding h_def using assms by (simp add: distinct_graph_remove distinct_graft_axiom)
  have "rewrite_class g cls n d raw = removeAll (cls, RDFS_seeAlso, Literal raw None None) h"
    by (simp add: rewrite_class_def h_def graph_remove_def)
  then have "length (filter ?Q h) \<le> Suc (length (filter ?Q (rewrite_class g cls n d raw)))"
    using length_filter_removeAll [OF dh] by simp
  then have "length (graph_objects h cls RDFS_seeAlso)
      \<le> Suc (length (graph_objects (rewrite_class g cls n d raw) cls RDFS_seeAlso))"
    by (simp add: graph_objects_def)
  then show ?thesis by (simp only: same)
qed

lemma migrate_body_total:
  "graph_objects (graph r) cls RDFS_seeAlso \<noteq> [] \<Longrightarrow> \<exists>r'. migrate_body cls r = Inr r'"
  by (simp add: migrate_body_eq split: list.split)

lemma migrate_body_cases:
  assumes "migrate_body cls r = Inr r'"
  obtains (skip) "r' = r" "length (graph_objects (graph r) cls RDFS_comment) < 2"
  | (rewrite) first others where
      "graph_objects (graph r) cls RDFS_seeAlso = first # others"
      "2 \<le> length (graph_objects (graph r) cls RDFS_comment)"
      "graph r' = rewrite_class (graph r) cls
                       (hd (coms_sorted_of (graph_objects (graph r) cls RDFS_comment)))
                       (last (coms_sorted_of (graph_objects (graph r) cls RDFS_comment)))
                       (str_of first)"
      "processed_count r' = processed_count r + 1"
  using assms by (auto simp: migrate_body_eq split: list.splits if_splits)

lemma migrate_body_seeAlso:
  assumes "distinct (graph r)" and "migrate_body cls r = Inr r'"
  shows "distinct (graph r')"
    and "c \<noteq> cls \<Longrightarrow>
           graph_objects (graph r') c RDFS_seeAlso = graph_objects (graph r) c RDFS_seeAlso"
    and "length (graph_objects (graph r) cls RDFS_seeAlso)
           \<le> Suc (length (graph_objects (graph r') cls RDFS_seeAlso))"
proof -
  show "distinct (graph r')"
    using assms(2,1) by (cases rule: migrate_body_cases) (simp_all add: distinct_rewrite_class)
  show "graph_objects (graph r') c RDFS_seeAlso = graph_objects (graph r) c RDFS_seeAlso"
    if "c \<noteq> cls"
    using assms(2) that by (cases rule: migrate_body_cases) (simp_all add: objects_rewrite_other)
  show "length (graph_objects (graph r) cls RDFS_seeAlso)
           \<le> Suc (length (graph_objects (graph r') cls RDFS_seeAlso))"
    using assms(2)
  proof (cases rule: migrate_body_cases)
    case skip
    then show ?thesis by simp
  next
    case (rewrite first others)
    show ?thesis
      unfolding rewrite(3) using assms(1) by (rule seeAlso_rewrite_same)
  qed
qed

lemma set_first_seen: "set (first_seen xs) = set xs"
  by (induction xs) auto

lemma distinct_first_seen: "distinct (first_seen xs)"
  by (induction xs) (auto simp: distinct_removeAll)

lemma distinct_object_subjects:
  "distinct g \<Longrightarrow> distinct (graph_object_subjects g p ob)"
  unfolding graph_object_subjects_def
  by (auto simp: distinct_map inj_on_def)

lemma object_subjects_have:
  "s \<in> set (graph_object_subjects g p ob) \<Longrightarrow> graph_objects g s p \<noteq> []"
  by (force simp: graph_object_subjects_def graph_objects_def filter_empty_conv)

lemma migrate_loop_total_distinct:
  assumes "distinct (graph r)" and "distinct subjs"
    and "\<forall>s\<in>set subjs. graph_objects (graph r) s RDFS_seeAlso \<noteq> []"
  shows "\<exists>r'. migrate_loop subjs r = Inr r' \<and> distinct (graph r')"
  using assms
proof (induction subjs arbitrary: r)
  case Nil
  then show ?case by simp
next
  case (Cons c rest)
  have "graph_objects (graph r) c RDFS_seeAlso \<noteq> []" using Cons.prems(3) by simp
  then obtain r1 where r1: "migrate_body c r = Inr r1"
    using migrate_body_total by blast
  note step = migrate_body_seeAlso [OF Cons.prems(1) r1]
  have "\<forall>s\<in>set rest. graph_objects (graph r1) s RDFS_seeAlso \<noteq> []"
  proof
    fix s assume s: "s \<in> set rest"
    then have "s \<noteq> c" using Cons.prems(2) by auto
    then show "graph_objects (graph r1) s RDFS_seeAlso \<noteq> []"
      using step(2) [of s] Cons.prems(3) s by simp
  qed
  moreover have "distinct rest" using Cons.prems(2) by simp
  ultimately have "\<exists>r'. migrate_loop rest r1 = Inr r' \<and> distinct (graph r')"
    using step(1) Cons.IH by blast
  then show ?case by (simp add: r1)
qed

lemma migrate_objects_total:
  "distinct (graph r) \<Longrightarrow> \<exists>r'. migrate_objects objs r = Inr r'"
proof (induction objs arbitrary: r)
  case Nil
  then show ?case by simp
next
  case (Cons ob rest)
  have "\<exists>r1. migrate_loop (graph_object_subjects (graph r) RDFS_seeAlso ob) r = Inr r1
          \<and> distinct (graph r1)"
    using Cons.prems
    by (intro migrate_loop_total_distinct distinct_object_subjects ballI object_subjects_have)
  then obtain r1 where r1: "migrate_loop (graph_object_subjects (graph r) RDFS_seeAlso ob) r = Inr r1"
    and d: "distinct (graph r1)" by blast
  from Cons.IH [OF d] show ?case by (simp add: r1)
qed

lemma migrate_pass_total: "distinct g \<Longrightarrow> \<exists>r. migrate_pass g = Inr r"
  unfolding migrate_pass_def by (rule migrate_objects_total) simp

lemma set_graft_axiom:
  "set (graft_axiom g s p l x) =
     insert (s, p, l) (set g) \<union> set (axiom_triples (new_BNode (graph_add g (s, p, l))) s p l x)"
  by (simp add: graft_axiom_append set_graph_add)

lemma frame_graft_axiom:
  assumes "cls \<in> fst ` set g" and "s \<noteq> cls"
  shows "filter (\<lambda>t. fst t = cls) (graft_axiom g s p l x) = filter (\<lambda>t. fst t = cls) g"
proof (rule filter_graft_axiom)
  show "\<not> fst (s, p, l) = cls" using assms(2) by simp
  have "cls \<in> fst ` set (graph_add g (s, p, l))"
    using assms(1) by (auto simp: set_graph_add)
  then have "new_BNode (graph_add g (s, p, l)) \<noteq> cls"
    using new_BNode_not_subject [of "graph_add g (s, p, l)"] by auto
  then show "\<forall>t\<in>set (axiom_triples (new_BNode (graph_add g (s, p, l))) s p l x). \<not> fst t = cls"
    by (simp add: axiom_triples_def)
qed

lemma frame_rewrite_class:
  assumes "cls \<in> fst ` set g" and "c \<noteq> cls"
  shows "filter (\<lambda>t. fst t = cls) (rewrite_class g c n d raw) = filter (\<lambda>t. fst t = cls) g"
proof -
  define x where "x = Literal (ncit_id_of raw) None None"
  define g1 where "g1 = graft_axiom g c IAO_DEF d x"
  have "cls \<in> fst ` set g1"
    using assms(1) by (auto simp: g1_def set_graft_axiom)
  then have "filter (\<lambda>t. fst t = cls) (graft_axiom g1 c HAS_SYN n x) = filter (\<lambda>t. fst t = cls) g1"
    using assms(2) by (rule frame_graft_axiom)
  also have "\<dots> = filter (\<lambda>t. fst t = cls) g"
    unfolding g1_def using assms by (rule frame_graft_axiom)
  finally show ?thesis
    using assms(2) by (simp add: rewrite_class_def filter_graph_remove x_def g1_def)
qed

lemma migrate_loop_frame:
  assumes "migrate_loop subjs r = Inr r'"
    and "cls \<in> fst ` set (graph r)"
    and "length (graph_objects (graph r) cls RDFS_comment) < 2"
  shows "filter (\<lambda>t. fst t = cls) (graph r') = filter (\<lambda>t. fst t = cls) (graph r)
       \<and> processed_count r' \<le> processed_count r + length (filter (\<lambda>c. c \<noteq> cls) subjs)"
  using assms
proof (induction subjs arbitrary: r)
  case Nil
  then show ?case by simp
next
  case (Cons c rest)
  from Cons.prems(1) obtain r1 where body: "migrate_body c r = Inr r1"
    and loop: "migrate_loop rest r1 = Inr r'"
    by (auto split: sum.splits)
  have step: "filter (\<lambda>t. fst t = cls) (graph r1) = filter (\<lambda>t. fst t = cls) (graph r)
      \<and> processed_count r1 \<le> processed_count r + (if c = cls then 0 else 1)"
    using body
  proof (cases rule: migrate_body_cases)
    case skip
    then show ?thesis by simp
  next
    case (rewrite first others)
    have ne: "c \<noteq> cls" using rewrite(2) Cons.prems(3) by auto
    have "filter (\<lambda>t. fst t = cls) (graph r1) = filter (\<lambda>t. fst t = cls) (graph r)"
      unfolding rewrite(3) using Cons.prems(2) ne by (rule frame_rewrite_class)
    then show ?thesis using rewrite(4) ne by simp
  qed
  then have same: "filter (\<lambda>t. fst t = cls) (graph r1) = filter (\<lambda>t. fst t = cls) (graph r)"
    and cnt: "processed_count r1 \<le> processed_count r + (if c = cls then 0 else 1)"
    by simp_all
  have objs: "graph_objects g cls q = map (\<lambda>t. snd (snd t))
      (filter (\<lambda>t. fst (snd t) = q) (filter (\<lambda>t. fst t = cls) g))" for g q
    by (simp add: graph_objects_def conj_commute)
  have mem: "cls \<in> fst ` set (graph r1)"
  proof -
    from Cons.prems(2) have "filter (\<lambda>t. fst t = cls) (graph r) \<noteq> []"
      by (auto simp: filter_empty_conv)
    then have "filter (\<lambda>t. fst t = cls) (graph r1) \<noteq> []" by (simp add: same)
    then show ?thesis by (auto simp: filter_empty_conv)
  qed
  have few: "length (graph_objects (graph r1) cls RDFS_comment) < 2"
    using Cons.prems(3) by (simp only: objs same)
  from Cons.IH [OF loop mem few] same cnt show ?case by auto
qed

lemma subjects_graft_axiom:
  assumes "p \<noteq> RDF_type"
  shows "graph_subjects (graft_axiom g s p l x) RDF_type
       = graph_subjects g RDF_type @ [new_BNode (graph_add g (s, p, l))]"
proof -
  have "filter (\<lambda>t. fst (snd t) = RDF_type) (graph_add g (s, p, l))
      = filter (\<lambda>t. fst (snd t) = RDF_type) g"
    using assms by (simp add: filter_graph_add)
  moreover have "filter (\<lambda>t. fst (snd t) = RDF_type) (axiom_triples ax s p l x)
      = [(ax, RDF_type, OWL_Axiom)]" for ax
    using preds_distinct by (auto simp: axiom_triples_def)
  ultimately show ?thesis by (simp add: graph_subjects_def graft_axiom_append)
qed

lemma subjects_graph_remove:
  "p \<noteq> q \<Longrightarrow> graph_subjects (graph_remove g (s, p, ob)) q = graph_subjects g q"
  by (simp add: graph_subjects_def filter_graph_remove)

lemma subjects_rewrite_class:
  "length (graph_subjects (rewrite_class g cls n d raw) RDF_type)
     = length (graph_subjects g RDF_type) + 2"
proof -
  have neq: "IAO_DEF \<noteq> RDF_type" "HAS_SYN \<noteq> RDF_type" "RDFS_comment \<noteq> RDF_type"
      "RDFS_seeAlso \<noteq> RDF_type"
    using preds_distinct by auto
  show ?thesis
    by (simp add: rewrite_class_def subjects_graph_remove [OF neq(3)]
        subjects_graph_remove [OF neq(4)] subjects_graft_axiom [OF neq(1)]
        subjects_graft_axiom [OF neq(2)])
qed

lemma migrate_loop_axioms:
  "migrate_loop subjs r = Inr r' \<Longrightarrow>
     length (graph_subjects (graph r') RDF_type) + 2 * processed_count r
       = length (graph_subjects (graph r) RDF_type) + 2 * processed_count r'"
proof (induction subjs arbitrary: r)
  case Nil
  then show ?case by simp
next
  case (Cons c rest)
  from Cons.prems obtain r1 where body: "migrate_body c r = Inr r1"
    and loop: "migrate_loop rest r1 = Inr r'"
    by (auto split: sum.splits)
  have "length (graph_subjects (graph r1) RDF_type) + 2 * processed_count r
       = length (graph_subjects (graph r) RDF_type) + 2 * processed_count r1"
    using body by (cases rule: migrate_body_cases) (simp_all add: subjects_rewrite_class)
  with Cons.IH [OF loop] show ?case by simp
qed



lemma length_filter_graph_remove:
  "length (filter Q (graph_remove g t)) \<le> length (filter Q g)"
  unfolding graph_remove_def by (induction g) auto

lemma seeAlso_filter_graft_axiom:
  assumes "\<forall>t. Q t \<longrightarrow> fst (snd t) = RDFS_seeAlso" and "p \<noteq> RDFS_seeAlso"
  shows "filter Q (graft_axiom g s p l x) = filter Q g"
proof (rule filter_graft_axiom)
  show "\<not> Q (s, p, l)" using assms by auto
  have "fst (snd t) \<noteq> RDFS_seeAlso"
    if "t \<in> set (axiom_triples (new_BNode (graph_add g (s, p, l))) s p l x)" for t
    using that preds_distinct by (auto simp: axiom_triples_def)
  with assms(1)
  show "\<forall>t\<in>set (axiom_triples (new_BNode (graph_add g (s, p, l))) s p l x). \<not> Q t"
    by blast
qed

lemma seeAlso_filter_rewrite_class:
  assumes "\<forall>t. Q t \<longrightarrow> fst (snd t) = RDFS_seeAlso"
  shows "length (filter Q (rewrite_class g cls n d raw)) \<le> length (filter Q g)"
proof -
  have neq: "IAO_DEF \<noteq> RDFS_seeAlso" "HAS_SYN \<noteq> RDFS_seeAlso"
    using preds_distinct by auto
  define h where "h = graft_axiom
                (graft_axiom g cls IAO_DEF d (Literal (ncit_id_of raw) None None))
                cls HAS_SYN n (Literal (ncit_id_of raw) None None)"
  have "filter Q h = filter Q g"
    unfolding h_def
    by (simp add: seeAlso_filter_graft_axiom [OF assms neq(1)]
        seeAlso_filter_graft_axiom [OF assms neq(2)])
  moreover have "length (filter Q (rewrite_class g cls n d raw)) \<le> length (filter Q h)"
    unfolding rewrite_class_def h_def [symmetric]
    by (intro order_trans [OF length_filter_graph_remove]) simp
  ultimately show ?thesis by simp
qed

lemma seeAlso_filter_migrate_loop:
  assumes "migrate_loop subjs r = Inr r'" and "\<forall>t. Q t \<longrightarrow> fst (snd t) = RDFS_seeAlso"
  shows "length (filter Q (graph r')) \<le> length (filter Q (graph r))"
  using assms(1)
proof (induction subjs arbitrary: r)
  case Nil
  then show ?case by simp
next
  case (Cons c rest)
  from Cons.prems obtain r1 where body: "migrate_body c r = Inr r1"
    and loop: "migrate_loop rest r1 = Inr r'"
    by (auto split: sum.splits)
  have "length (filter Q (graph r1)) \<le> length (filter Q (graph r))"
    using body
    by (cases rule: migrate_body_cases) (simp_all add: seeAlso_filter_rewrite_class [OF assms(2)])
  with Cons.IH [OF loop] show ?case by simp
qed

lemma same_class_triples:
  assumes "filter (\<lambda>t. fst t = cls) g' = filter (\<lambda>t. fst t = cls) g"
  shows "cls \<in> fst ` set g \<Longrightarrow> cls \<in> fst ` set g'"
    and "graph_objects g' cls q = graph_objects g cls q"
proof -
  have objs: "graph_objects h cls q = map (\<lambda>t. snd (snd t))
      (filter (\<lambda>t. fst (snd t) = q) (filter (\<lambda>t. fst t = cls) h))" for h
    by (simp add: graph_objects_def conj_commute)
  show "graph_objects g' cls q = graph_objects g cls q"
    by (simp only: objs assms)
  assume "cls \<in> fst ` set g"
  then have "filter (\<lambda>t. fst t = cls) g \<noteq> []" by (auto simp: filter_empty_conv)
  then have "filter (\<lambda>t. fst t = cls) g' \<noteq> []" by (simp add: assms)
  then show "cls \<in> fst ` set g'" by (auto simp: filter_empty_conv)
qed

lemma length_visits:
  "length (filter (\<lambda>c. c \<noteq> cls) (graph_object_subjects g p ob))
     = length (filter (\<lambda>t. fst (snd t) = p \<and> fst t \<noteq> cls \<and> snd (snd t) = ob) g)"
  unfolding graph_object_subjects_def by (induction g) auto

lemma length_filter_split:
  "ob \<notin> set rest \<Longrightarrow>
     length (filter (\<lambda>t. A t \<and> snd (snd t) \<in> set (ob # rest)) g)
       = length (filter (\<lambda>t. A t \<and> snd (snd t) = ob) g)
         + length (filter (\<lambda>t. A t \<and> snd (snd t) \<in> set rest) g)"
  by (induction g) auto

lemma migrate_objects_frame:
  assumes "migrate_objects objs r = Inr r'"
    and "distinct objs"
    and "cls \<in> fst ` set (graph r)"
    and "length (graph_objects (graph r) cls RDFS_comment) < 2"
  shows "filter (\<lambda>t. fst t = cls) (graph r') = filter (\<lambda>t. fst t = cls) (graph r)
       \<and> processed_count r' \<le> processed_count r
           + length (filter (\<lambda>t. (fst (snd t) = RDFS_seeAlso \<and> fst t \<noteq> cls)
                                \<and> snd (snd t) \<in> set objs) (graph r))"
  using assms
proof (induction objs arbitrary: r)
  case Nil
  then show ?case by simp
next
  case (Cons ob rest)
  let ?A = "\<lambda>t. fst (snd t) = RDFS_seeAlso \<and> fst t \<noteq> cls"
  from Cons.prems(1) obtain r1 where
      inner: "migrate_loop (graph_object_subjects (graph r) RDFS_seeAlso ob) r = Inr r1"
    and outer: "migrate_objects rest r1 = Inr r'"
    by (auto split: sum.splits)
  note fr = migrate_loop_frame [OF inner Cons.prems(3,4)]
  have same: "filter (\<lambda>t. fst t = cls) (graph r1) = filter (\<lambda>t. fst t = cls) (graph r)"
    using fr by simp
  have cnt1: "processed_count r1 \<le> processed_count r
        + length (filter (\<lambda>t. ?A t \<and> snd (snd t) = ob) (graph r))"
    using fr by (simp add: length_visits conj_ac)
  have mem: "cls \<in> fst ` set (graph r1)"
    using same Cons.prems(3) by (rule same_class_triples(1))
  have few: "length (graph_objects (graph r1) cls RDFS_comment) < 2"
    using Cons.prems(4) by (simp add: same_class_triples(2) [OF same])
  have d: "distinct rest" and notin: "ob \<notin> set rest" using Cons.prems(2) by simp_all
  note ih = Cons.IH [OF outer d mem few]
  have mono: "length (filter (\<lambda>t. ?A t \<and> snd (snd t) \<in> set rest) (graph r1))
      \<le> length (filter (\<lambda>t. ?A t \<and> snd (snd t) \<in> set rest) (graph r))"
    using inner by (rule seeAlso_filter_migrate_loop) simp
  have split: "length (filter (\<lambda>t. ?A t \<and> snd (snd t) \<in> set (ob # rest)) (graph r))
       = length (filter (\<lambda>t. ?A t \<and> snd (snd t) = ob) (graph r))
         + length (filter (\<lambda>t. ?A t \<and> snd (snd t) \<in> set rest) (graph r))"
    using notin by (rule length_filter_split)
  have "filter (\<lambda>t. fst t = cls) (graph r') = filter (\<lambda>t. fst t = cls) (graph r)"
    using ih same by simp
  moreover have "processed_count r' \<le> processed_count r
           + length (filter (\<lambda>t. ?A t \<and> snd (snd t) \<in> set (ob # rest)) (graph r))"
    using ih cnt1 mono unfolding split by linarith
  ultimately show ?case by blast
qed

lemma length_visits_le:
  "length (filter (\<lambda>t. (fst (snd t) = p \<and> fst t \<noteq> cls) \<and> snd (snd t) \<in> S) g)
     \<le> length (filter (\<lambda>c. c \<noteq> cls) (graph_subjects g p))"
  unfolding graph_subjects_def by (induction g) auto

lemma migrate_objects_axioms:
  "migrate_objects objs r = Inr r' \<Longrightarrow>
     length (graph_subjects (graph r') RDF_type) + 2 * processed_count r
       = length (graph_subjects (graph r) RDF_type) + 2 * processed_count r'"
proof (induction objs arbitrary: r)
  case Nil
  then show ?case by simp
next
  case (Cons ob rest)
  from Cons.prems obtain r1 where
      inner: "migrate_loop (graph_object_subjects (graph r) RDFS_seeAlso ob) r = Inr r1"
    and outer: "migrate_objects rest r1 = Inr r'"
    by (auto split: sum.splits)
  from migrate_loop_axioms [OF inner] Cons.IH [OF outer] show ?case by simp
qed

section \<open>The end-to-end scenario\<close>

lemma ex_pass:
  "migrate_pass (Graph_parse ex_input) = Inr \<lparr>graph = ex_output, processed_count = 1\<rparr>"
  by code_simp

text \<open>
  The store may enumerate the three triples of the scenario in any order. A list without
  repetitions that holds exactly three given elements is one of their six arrangements,
  and the pass gives the same graph on each.
\<close>

lemma three_arrangements:
  assumes "distinct xs" and "set xs = {a, b, c}" and "a \<noteq> b" and "a \<noteq> c" and "b \<noteq> c"
  shows "xs \<in> {[a, b, c], [a, c, b], [b, a, c], [b, c, a], [c, a, b], [c, b, a]}"
proof -
  have "length xs = card {a, b, c}"
    using assms(1,2) distinct_card [of xs] by simp
  then have "length xs = 3" using assms(3,4,5) by simp
  then obtain x y z where xs: "xs = [x, y, z]"
    by (auto simp: numeral_3_eq_3 length_Suc_conv)
  have mem: "x \<in> {a, b, c}" "y \<in> {a, b, c}" "z \<in> {a, b, c}"
    using assms(2) by (auto simp: xs)
  have diff: "x \<noteq> y" "x \<noteq> z" "y \<noteq> z"
    using assms(1) by (auto simp: xs)
  from mem diff show ?thesis unfolding xs by auto
qed

lemma set_Graph_parse: "set (Graph_parse stmts) = set stmts"
proof -
  have "set (foldl graph_add acc stmts) = set acc \<union> set stmts" for acc
    by (induction stmts arbitrary: acc) (auto simp: set_graph_add)
  then show ?thesis by (simp add: Graph_parse_def)
qed

lemma ex_pass_orders:
  "migrate_pass
        [(ex_C123, RDFS_seeAlso, Literal ''C999'' None None), (ex_C123, RDFS_comment, ex_short), (ex_C123, RDFS_comment, ex_long)]
       = Inr \<lparr>graph = ex_output, processed_count = 1\<rparr>
   \<and> migrate_pass
        [(ex_C123, RDFS_seeAlso, Literal ''C999'' None None), (ex_C123, RDFS_comment, ex_long), (ex_C123, RDFS_comment, ex_short)]
       = Inr \<lparr>graph = ex_output, processed_count = 1\<rparr>
   \<and> migrate_pass
        [(ex_C123, RDFS_comment, ex_short), (ex_C123, RDFS_seeAlso, Literal ''C999'' None None), (ex_C123, RDFS_comment, ex_long)]
       = Inr \<lparr>graph = ex_output, processed_count = 1\<rparr>
   \<and> migrate_pass
        [(ex_C123, RDFS_comment, ex_short), (ex_C123, RDFS_comment, ex_long), (ex_C123, RDFS_seeAlso, Literal ''C999'' None None)]
       = Inr \<lparr>graph = ex_output, processed_count = 1\<rparr>
   \<and> migrate_pass
        [(ex_C123, RDFS_comment, ex_long), (ex_C123, RDFS_seeAlso, Literal ''C999'' None None), (ex_C123, RDFS_comment, ex_short)]
       = Inr \<lparr>graph = ex_output, processed_count = 1\<rparr>
   \<and> migrate_pass
        [(ex_C123, RDFS_comment, ex_long), (ex_C123, RDFS_comment, ex_short), (ex_C123, RDFS_seeAlso, Literal ''C999'' None None)]
       = Inr \<lparr>graph = ex_output, processed_count = 1\<rparr>"
  by code_simp

lemma ex_pass_any_order:
  assumes "set stmts = set ex_input"
  shows "migrate_pass (Graph_parse stmts) = Inr \<lparr>graph = ex_output, processed_count = 1\<rparr>"
proof -
  have neq: "(ex_C123, RDFS_seeAlso, Literal ''C999'' None None) \<noteq> (ex_C123, RDFS_comment, ex_short)"
      "(ex_C123, RDFS_seeAlso, Literal ''C999'' None None) \<noteq> (ex_C123, RDFS_comment, ex_long)"
      "(ex_C123, RDFS_comment, ex_short) \<noteq> (ex_C123, RDFS_comment, ex_long)"
    by (simp_all add: RDFS_seeAlso_def RDFS_comment_def ex_short_def ex_long_def)
  have "set (Graph_parse stmts) = {(ex_C123, RDFS_seeAlso, Literal ''C999'' None None),
      (ex_C123, RDFS_comment, ex_short), (ex_C123, RDFS_comment, ex_long)}"
    using assms by (simp add: set_Graph_parse ex_input_def)
  with distinct_Graph_parse [of stmts]
  have "Graph_parse stmts \<in> {[(ex_C123, RDFS_seeAlso, Literal ''C999'' None None), (ex_C123, RDFS_comment, ex_short), (ex_C123, RDFS_comment, ex_long)],
      [(ex_C123, RDFS_seeAlso, Literal ''C999'' None None), (ex_C123, RDFS_comment, ex_long), (ex_C123, RDFS_comment, ex_short)],
      [(ex_C123, RDFS_comment, ex_short), (ex_C123, RDFS_seeAlso, Literal ''C999'' None None), (ex_C123, RDFS_comment, ex_long)],
      [(ex_C123, RDFS_comment, ex_short), (ex_C123, RDFS_comment, ex_long), (ex_C123, RDFS_seeAlso, Literal ''C999'' None None)],
      [(ex_C123, RDFS_comment, ex_long), (ex_C123, RDFS_seeAlso, Literal ''C999'' None None), (ex_C123, RDFS_comment, ex_short)],
      [(ex_C123, RDFS_comment, ex_long), (ex_C123, RDFS_comment, ex_short), (ex_C123, RDFS_seeAlso, Literal ''C999'' None None)]}"
    using neq by (rule three_arrangements)
  with ex_pass_orders show ?thesis by auto
qed

text \<open>
  C1. On the graph of the scenario, in whatever order the store enumerates its three
  triples, \<open>migrate\<close> reports one processed class and writes a graph that holds the
  definition (the long comment) and the synonym (the short comment) of \<open>C123\<close> and no
  other, two anonymous axiom nodes that the input does not have, each with the
  cross-reference \<^verbatim>\<open>NCIT:C999\<close>, and no see-also or comment triple of \<open>C123\<close>.
\<close>

theorem end_to_end_scenario:
  assumes "set stmts = set ex_input"
  shows "migrate (ok_env stmts) ''_hpvco.rdf'' ''hpvco.rdf'' =
     ([ReadFile ''_hpvco.rdf'', Print (Loaded ''_hpvco.rdf''), WriteFile ''hpvco.rdf'' ex_output,
       Print (Processed 1), Print (Saved ''hpvco.rdf'')], Returned PyNone)
   \<and> (ex_C123, IAO_DEF, ex_long) \<in> set ex_output
   \<and> (ex_C123, HAS_SYN, ex_short) \<in> set ex_output
   \<and> graph_objects ex_output ex_C123 IAO_DEF = [ex_long]
   \<and> graph_objects ex_output ex_C123 HAS_SYN = [ex_short]
   \<and> graph_subjects ex_output RDF_type = [BNode ''N'', BNode ''NN'']
   \<and> graph_objects ex_output (BNode ''N'') RDF_type = [OWL_Axiom]
   \<and> graph_objects ex_output (BNode ''NN'') RDF_type = [OWL_Axiom]
   \<and> graph_objects ex_output (BNode ''N'') HAS_XREF = [Literal ''NCIT:C999'' None None]
   \<and> graph_objects ex_output (BNode ''NN'') HAS_XREF = [Literal ''NCIT:C999'' None None]
   \<and> BNode ''N'' \<notin> fst ` set ex_input \<and> BNode ''NN'' \<notin> fst ` set ex_input
   \<and> graph_objects ex_output ex_C123 RDFS_seeAlso = []
   \<and> graph_objects ex_output ex_C123 RDFS_comment = []
   \<and> (ex_C123, RDFS_seeAlso, Literal ''C999'' None None) \<notin> set ex_output
   \<and> (ex_C123, RDFS_comment, ex_short) \<notin> set ex_output
   \<and> (ex_C123, RDFS_comment, ex_long) \<notin> set ex_output"
proof -
  have run: "migrate (ok_env stmts) ''_hpvco.rdf'' ''hpvco.rdf'' =
     ([ReadFile ''_hpvco.rdf'', Print (Loaded ''_hpvco.rdf''), WriteFile ''hpvco.rdf'' ex_output,
       Print (Processed 1), Print (Saved ''hpvco.rdf'')], Returned PyNone)"
    by (simp add: migrate_def ok_env_def ex_pass_any_order [OF assms])
  have rest: "(ex_C123, IAO_DEF, ex_long) \<in> set ex_output
   \<and> (ex_C123, HAS_SYN, ex_short) \<in> set ex_output
   \<and> graph_objects ex_output ex_C123 IAO_DEF = [ex_long]
   \<and> graph_objects ex_output ex_C123 HAS_SYN = [ex_short]
   \<and> graph_subjects ex_output RDF_type = [BNode ''N'', BNode ''NN'']
   \<and> graph_objects ex_output (BNode ''N'') RDF_type = [OWL_Axiom]
   \<and> graph_objects ex_output (BNode ''NN'') RDF_type = [OWL_Axiom]
   \<and> graph_objects ex_output (BNode ''N'') HAS_XREF = [Literal ''NCIT:C999'' None None]
   \<and> graph_objects ex_output (BNode ''NN'') HAS_XREF = [Literal ''NCIT:C999'' None None]
   \<and> BNode ''N'' \<notin> fst ` set ex_input \<and> BNode ''NN'' \<notin> fst ` set ex_input
   \<and> graph_objects ex_output ex_C123 RDFS_seeAlso = []
   \<and> graph_objects ex_output ex_C123 RDFS_comment = []
   \<and> (ex_C123, RDFS_seeAlso, Literal ''C999'' None None) \<notin> set ex_output
   \<and> (ex_C123, RDFS_comment, ex_short) \<notin> set ex_output
   \<and> (ex_C123, RDFS_comment, ex_long) \<notin> set ex_output"
    by code_simp
  from run rest show ?thesis by (rule conjI)
qed

theorem end_to_end_scenario_witness:
  "set ex_reordered_input = set ex_input
   \<and> migrate (ok_env ex_reordered_input) ''_hpvco.rdf'' ''hpvco.rdf'' =
     ([ReadFile ''_hpvco.rdf'', Print (Loaded ''_hpvco.rdf''), WriteFile ''hpvco.rdf'' ex_output,
       Print (Processed 1), Print (Saved ''hpvco.rdf'')], Returned PyNone)
   \<and> (ex_C123, IAO_DEF, ex_long) \<in> set ex_output
   \<and> (ex_C123, HAS_SYN, ex_short) \<in> set ex_output
   \<and> (ex_C123, HAS_SYN, ex_long) \<notin> set ex_output
   \<and> (ex_C123, IAO_DEF, ex_short) \<notin> set ex_output"
proof -
  have same: "set ex_reordered_input = set ex_input"
    by (auto simp: ex_reordered_input_def ex_input_def)
  have other: "(ex_C123, HAS_SYN, ex_long) \<notin> set ex_output
      \<and> (ex_C123, IAO_DEF, ex_short) \<notin> set ex_output"
    by code_simp
  from end_to_end_scenario [OF same] same other show ?thesis by blast
qed

section \<open>Stable sorting by length\<close>

lemma sort_key_not_Nil: "xs \<noteq> [] \<Longrightarrow> sort_key f xs \<noteq> []"
  using length_sort [of f xs] by (cases "sort_key f xs") auto

lemma hd_sort_key_least:
  assumes "xs \<noteq> []" and "x \<in> set xs"
  shows "f (hd (sort_key f xs)) \<le> f x"
proof -
  obtain y ys where ys: "sort_key f xs = y # ys"
    using assms(1) by (cases "sort_key f xs") (auto dest: arg_cong [where f = length])
  have "sorted (map f (y # ys))"
    using sorted_sort_key [of f xs] by (simp only: ys)
  moreover have "x \<in> set (y # ys)"
    using assms(2) set_sort [of f xs] by (simp only: ys)
  ultimately show ?thesis by (auto simp: ys)
qed

lemma last_sort_key_greatest:
  assumes "xs \<noteq> []" and "x \<in> set xs"
  shows "f x \<le> f (last (sort_key f xs))"
proof -
  define zs where "zs = sort_key f xs"
  have ne: "zs \<noteq> []"
    using assms(1) by (auto simp: zs_def dest: arg_cong [where f = length])
  then have split: "zs = butlast zs @ [last zs]" by simp
  have "sorted (map f zs)" by (simp add: zs_def)
  then have "sorted (map f (butlast zs) @ [f (last zs)])"
    by (subst (asm) split) simp
  then have "\<forall>z\<in>set (butlast zs). f z \<le> f (last zs)"
    by (simp add: sorted_append)
  moreover have "x \<in> set (butlast zs @ [last zs])"
    using assms(2) split by (simp add: zs_def)
  ultimately show ?thesis by (auto simp: zs_def)
qed

lemma hd_sort_key_mem: "xs \<noteq> [] \<Longrightarrow> hd (sort_key f xs) \<in> set xs"
  using hd_in_set [OF sort_key_not_Nil, of xs f] by simp

lemma last_sort_key_mem: "xs \<noteq> [] \<Longrightarrow> last (sort_key f xs) \<in> set xs"
  using last_in_set [OF sort_key_not_Nil, of xs f] by simp

lemma hd_sort_key_first:
  assumes "xs \<noteq> []"
  shows "hd (sort_key f xs) = hd (filter (\<lambda>y. f y = f (hd (sort_key f xs))) xs)"
proof -
  obtain y ys where ys: "sort_key f xs = y # ys"
    using assms by (cases "sort_key f xs") (auto dest: arg_cong [where f = length])
  have "filter (\<lambda>z. f z = f y) (sort_key f xs) = filter (\<lambda>z. f z = f y) xs"
    by (rule sort_key_stable)
  then have "filter (\<lambda>z. f z = f y) xs = y # filter (\<lambda>z. f z = f y) ys" by (simp add: ys)
  then have "hd (filter (\<lambda>z. f z = f y) xs) = y" by simp
  then show ?thesis by (simp add: ys)
qed

lemma hd_filter_index:
  "filter P xs \<noteq> [] \<Longrightarrow>
     \<exists>i<length xs. hd (filter P xs) = xs ! i \<and> (\<forall>j<i. \<not> P (xs ! j))"
proof (induction xs)
  case Nil
  then show ?case by simp
next
  case (Cons x xs)
  show ?case
  proof (cases "P x")
    case True
    then have "hd (filter P (x # xs)) = (x # xs) ! 0 \<and> (\<forall>j<0. \<not> P ((x # xs) ! j))" by simp
    then show ?thesis by blast
  next
    case False
    with Cons.prems have "filter P xs \<noteq> []" by simp
    then obtain i where i: "i < length xs" "hd (filter P xs) = xs ! i" "\<forall>j<i. \<not> P (xs ! j)"
      using Cons.IH by blast
    have "\<forall>j<Suc i. \<not> P ((x # xs) ! j)"
      using False i(3) by (auto simp: less_Suc_eq_0_disj)
    moreover have "hd (filter P (x # xs)) = (x # xs) ! Suc i" using False i(2) by simp
    moreover have "Suc i < length (x # xs)" using i(1) by simp
    ultimately show ?thesis by blast
  qed
qed

lemma hd_sort_key_index:
  assumes "xs \<noteq> []"
  shows "\<exists>i<length xs. hd (sort_key f xs) = xs ! i \<and> (\<forall>j<i. f (xs ! i) < f (xs ! j))
           \<and> (\<forall>j<length xs. f (xs ! i) \<le> f (xs ! j))"
proof -
  define m where "m = hd (sort_key f xs)"
  have mem: "m \<in> set xs" unfolding m_def using assms by (rule hd_sort_key_mem)
  have least: "f m \<le> f x" if "x \<in> set xs" for x
    unfolding m_def using assms that by (rule hd_sort_key_least)
  have first: "m = hd (filter (\<lambda>y. f y = f m) xs)"
    unfolding m_def using assms by (rule hd_sort_key_first)
  have "filter (\<lambda>y. f y = f m) xs \<noteq> []"
    using mem by (auto simp: filter_empty_conv)
  then obtain i where i: "i < length xs" "hd (filter (\<lambda>y. f y = f m) xs) = xs ! i"
      "\<forall>j<i. f (xs ! j) \<noteq> f m"
    using hd_filter_index [of "\<lambda>y. f y = f m" xs] by blast
  have mi: "m = xs ! i" using first i(2) by simp
  have "f (xs ! i) < f (xs ! j)" if "j < i" for j
  proof -
    have "j < length xs" using that i(1) by simp
    then have "f m \<le> f (xs ! j)" by (intro least nth_mem)
    moreover have "f (xs ! j) \<noteq> f m" using i(3) that by blast
    ultimately show ?thesis by (simp add: mi)
  qed
  moreover have "f (xs ! i) \<le> f (xs ! j)" if "j < length xs" for j
    using least [OF nth_mem [OF that]] by (simp add: mi)
  ultimately show ?thesis using i(1) mi unfolding m_def by blast
qed



lemma last_filter_index:
  "filter P xs \<noteq> [] \<Longrightarrow>
     \<exists>k<length xs. last (filter P xs) = xs ! k \<and> (\<forall>j. k < j \<and> j < length xs \<longrightarrow> \<not> P (xs ! j))"
proof (induction xs rule: rev_induct)
  case Nil
  then show ?case by simp
next
  case (snoc x xs)
  show ?case
  proof (cases "P x")
    case True
    then have "last (filter P (xs @ [x])) = (xs @ [x]) ! length xs" by simp
    moreover have "\<forall>j. length xs < j \<and> j < length (xs @ [x]) \<longrightarrow> \<not> P ((xs @ [x]) ! j)" by auto
    ultimately show ?thesis by (intro exI [of _ "length xs"]) simp
  next
    case False
    with snoc.prems have "filter P xs \<noteq> []" by simp
    then obtain k where k: "k < length xs" "last (filter P xs) = xs ! k"
        "\<forall>j. k < j \<and> j < length xs \<longrightarrow> \<not> P (xs ! j)"
      using snoc.IH by blast
    have "last (filter P (xs @ [x])) = (xs @ [x]) ! k"
      using False k(1,2) by (simp add: nth_append)
    moreover have "\<not> P ((xs @ [x]) ! j)" if "k < j" "j < length (xs @ [x])" for j
      using that False k(3) by (cases "j < length xs") (auto simp: nth_append)
    moreover have "k < length (xs @ [x])" using k(1) by simp
    ultimately show ?thesis by blast
  qed
qed

lemma last_filter_last: "xs \<noteq> [] \<Longrightarrow> P (last xs) \<Longrightarrow> last (filter P xs) = last xs"
  by (induction xs rule: rev_induct) auto

lemma last_sort_key_last:
  assumes "xs \<noteq> []"
  shows "last (sort_key f xs) = last (filter (\<lambda>y. f y = f (last (sort_key f xs))) xs)"
proof -
  define zs where "zs = sort_key f xs"
  have ne: "zs \<noteq> []" unfolding zs_def using assms by (rule sort_key_not_Nil)
  have "filter (\<lambda>y. f y = f (last zs)) zs = filter (\<lambda>y. f y = f (last zs)) xs"
    unfolding zs_def by (rule sort_key_stable)
  moreover have "last (filter (\<lambda>y. f y = f (last zs)) zs) = last zs"
    using ne by (simp add: last_filter_last)
  ultimately show ?thesis by (simp add: zs_def)
qed

lemma last_sort_key_index:
  assumes "xs \<noteq> []"
  shows "\<exists>k<length xs. last (sort_key f xs) = xs ! k
           \<and> (\<forall>j. k < j \<and> j < length xs \<longrightarrow> f (xs ! j) < f (xs ! k))
           \<and> (\<forall>j<length xs. f (xs ! j) \<le> f (xs ! k))"
proof -
  define m where "m = last (sort_key f xs)"
  have mem: "m \<in> set xs" unfolding m_def using assms by (rule last_sort_key_mem)
  have greatest: "f x \<le> f m" if "x \<in> set xs" for x
    unfolding m_def using assms that by (rule last_sort_key_greatest)
  have lst: "m = last (filter (\<lambda>y. f y = f m) xs)"
    unfolding m_def using assms by (rule last_sort_key_last)
  have "filter (\<lambda>y. f y = f m) xs \<noteq> []"
    using mem by (auto simp: filter_empty_conv)
  then obtain k where k: "k < length xs" "last (filter (\<lambda>y. f y = f m) xs) = xs ! k"
      "\<forall>j. k < j \<and> j < length xs \<longrightarrow> f (xs ! j) \<noteq> f m"
    using last_filter_index [of "\<lambda>y. f y = f m" xs] by blast
  have mk: "m = xs ! k" using lst k(2) by simp
  have "f (xs ! j) < f (xs ! k)" if "k < j" "j < length xs" for j
  proof -
    have "f (xs ! j) \<le> f m" using that(2) by (intro greatest nth_mem)
    moreover have "f (xs ! j) \<noteq> f m" using k(3) that by blast
    ultimately show ?thesis by (simp add: mk)
  qed
  moreover have "f (xs ! j) \<le> f (xs ! k)" if "j < length xs" for j
    using greatest [OF nth_mem [OF that]] by (simp add: mk)
  ultimately show ?thesis using k(1) mk unfolding m_def by blast
qed

lemma set_graph_objects: "set (graph_objects g s p) = {ob. (s, p, ob) \<in> set g}"
  by (force simp: graph_objects_def)

lemma objects_rewrite_class_written:
  "set (graph_objects (rewrite_class g cls n d raw) cls HAS_SYN)
     = insert n (set (graph_objects g cls HAS_SYN))"
  "set (graph_objects (rewrite_class g cls n d raw) cls IAO_DEF)
     = insert d (set (graph_objects g cls IAO_DEF))"
  using preds_distinct
  by (auto simp: set_graph_objects rewrite_class_def set_graph_remove set_graft_axiom
      axiom_triples_def)


text \<open>
  C7. When a class with two or more comments is processed, the synonym is the comment at
  the first position \<open>i\<close> of minimal text length (every earlier comment is strictly
  longer), the definition is the comment at the last position \<open>k\<close> of maximal text length
  (every later comment is strictly shorter), and \<open>i\<close> and \<open>k\<close> differ. The graph after the
  pass is the graph before it with exactly these two grafted and removed as comments: the
  class gains the one synonym and the one definition and nothing else under these two
  properties.
\<close>

theorem name_and_definition_choice:
  assumes "migrate_body cls r = Inr r'"
    and "coms = graph_objects (graph r) cls RDFS_comment"
    and "2 \<le> length coms"
  shows "\<exists>i<length coms. \<exists>k<length coms. \<exists>first others.
           i \<noteq> k
         \<and> (\<forall>j<length coms. length (str_of (coms ! i)) \<le> length (str_of (coms ! j))
                           \<and> length (str_of (coms ! j)) \<le> length (str_of (coms ! k)))
         \<and> (\<forall>j<i. length (str_of (coms ! i)) < length (str_of (coms ! j)))
         \<and> (\<forall>j. k < j \<and> j < length coms
                 \<longrightarrow> length (str_of (coms ! j)) < length (str_of (coms ! k)))
         \<and> graph_objects (graph r) cls RDFS_seeAlso = first # others
         \<and> graph r' = rewrite_class (graph r) cls (coms ! i) (coms ! k) (str_of first)
         \<and> set (graph_objects (graph r') cls HAS_SYN)
             = insert (coms ! i) (set (graph_objects (graph r) cls HAS_SYN))
         \<and> set (graph_objects (graph r') cls IAO_DEF)
             = insert (coms ! k) (set (graph_objects (graph r) cls IAO_DEF))
         \<and> (cls, HAS_SYN, coms ! i) \<in> set (graph r')
         \<and> (cls, IAO_DEF, coms ! k) \<in> set (graph r')
         \<and> processed_count r' = processed_count r + 1"
  using assms(1)
proof (cases rule: migrate_body_cases)
  case skip
  with assms(2,3) show ?thesis by simp
next
  case (rewrite first others)
  let ?len = "\<lambda>lit. length (str_of lit)"
  have ne: "coms \<noteq> []" using assms(3) by auto
  obtain i where i: "i < length coms" "hd (coms_sorted_of coms) = coms ! i"
      "\<forall>j<i. ?len (coms ! i) < ?len (coms ! j)"
      "\<forall>j<length coms. ?len (coms ! i) \<le> ?len (coms ! j)"
    using hd_sort_key_index [OF ne, of ?len] unfolding coms_sorted_of_def by blast
  obtain k where k: "k < length coms" "last (coms_sorted_of coms) = coms ! k"
      "\<forall>j. k < j \<and> j < length coms \<longrightarrow> ?len (coms ! j) < ?len (coms ! k)"
      "\<forall>j<length coms. ?len (coms ! j) \<le> ?len (coms ! k)"
    using last_sort_key_index [OF ne, of ?len] unfolding coms_sorted_of_def by blast
  have ik: "i \<noteq> k"
  proof
    assume eq: "i = k"
    show False
    proof (cases "i = 0")
      case True
      have "1 < length coms" using assms(3) by simp
      with k(3) eq True have "?len (coms ! 1) < ?len (coms ! 0)" by simp
      moreover from i(4) True \<open>1 < length coms\<close> have "?len (coms ! 0) \<le> ?len (coms ! 1)"
        by simp
      ultimately show False by simp
    next
      case False
      then have "?len (coms ! i) < ?len (coms ! 0)" using i(3) by simp
      moreover have "?len (coms ! 0) \<le> ?len (coms ! i)" using k(4) eq ne by simp
      ultimately show False by simp
    qed
  qed
  have g: "graph r' = rewrite_class (graph r) cls (coms ! i) (coms ! k) (str_of first)"
    using rewrite(3) by (simp add: assms(2) [symmetric] i(2) k(2))
  have neq: "HAS_SYN \<noteq> RDFS_comment" "HAS_SYN \<noteq> RDFS_seeAlso"
      "IAO_DEF \<noteq> RDFS_comment" "IAO_DEF \<noteq> RDFS_seeAlso"
    using preds_distinct by auto
  have syn: "(cls, HAS_SYN, coms ! i) \<in> set (graph r')"
    using neq by (simp add: g rewrite_class_def set_graph_remove set_graft_axiom)
  have def: "(cls, IAO_DEF, coms ! k) \<in> set (graph r')"
    using neq by (simp add: g rewrite_class_def set_graph_remove set_graft_axiom)
  have syns: "set (graph_objects (graph r') cls HAS_SYN)
             = insert (coms ! i) (set (graph_objects (graph r) cls HAS_SYN))"
    unfolding g by (rule objects_rewrite_class_written)
  have defs: "set (graph_objects (graph r') cls IAO_DEF)
             = insert (coms ! k) (set (graph_objects (graph r) cls IAO_DEF))"
    unfolding g by (rule objects_rewrite_class_written)
  have bounds: "\<forall>j<length coms. ?len (coms ! i) \<le> ?len (coms ! j)
                           \<and> ?len (coms ! j) \<le> ?len (coms ! k)"
    using i(4) k(4) by blast
  from i(1) k(1) ik bounds i(3) k(3) rewrite(1) g syns defs syn def rewrite(4)
  show ?thesis by blast
qed

text \<open>
  The long comment comes first and is the definition, the short one the synonym; of two
  comments of equal length the first is the synonym and the last the definition.
\<close>

theorem name_and_definition_choice_witness:
  "(migrate_body ex_C123 ex_long_first_run = Inr \<lparr>graph = ex_output, processed_count = 1\<rparr>
    \<and> graph_objects ex_output ex_C123 HAS_SYN = [ex_short]
    \<and> graph_objects ex_output ex_C123 IAO_DEF = [ex_long]
    \<and> (case migrate_body ex_C123 ex_tie_run of
          Inl e \<Rightarrow> False
        | Inr r' \<Rightarrow>
            graph_objects (graph r') ex_C123 HAS_SYN = [Literal ''HPV16'' None None]
          \<and> graph_objects (graph r') ex_C123 IAO_DEF = [Literal ''HPV18'' None None]
          \<and> graph_objects (graph r') ex_C123 RDFS_comment = []))
   \<and> (\<exists>i<length [ex_long, ex_short]. \<exists>k<length [ex_long, ex_short]. \<exists>first others.
           i \<noteq> k
         \<and> (\<forall>j<length [ex_long, ex_short].
               length (str_of ([ex_long, ex_short] ! i)) \<le> length (str_of ([ex_long, ex_short] ! j))
             \<and> length (str_of ([ex_long, ex_short] ! j)) \<le> length (str_of ([ex_long, ex_short] ! k)))
         \<and> (\<forall>j<i. length (str_of ([ex_long, ex_short] ! i))
                     < length (str_of ([ex_long, ex_short] ! j)))
         \<and> (\<forall>j. k < j \<and> j < length [ex_long, ex_short]
                 \<longrightarrow> length (str_of ([ex_long, ex_short] ! j))
                       < length (str_of ([ex_long, ex_short] ! k)))
         \<and> graph_objects (graph ex_long_first_run) ex_C123 RDFS_seeAlso = first # others
         \<and> graph \<lparr>graph = ex_output, processed_count = 1\<rparr>
             = rewrite_class (graph ex_long_first_run) ex_C123 ([ex_long, ex_short] ! i)
                 ([ex_long, ex_short] ! k) (str_of first)
         \<and> set (graph_objects (graph \<lparr>graph = ex_output, processed_count = 1\<rparr>) ex_C123 HAS_SYN)
             = insert ([ex_long, ex_short] ! i)
                 (set (graph_objects (graph ex_long_first_run) ex_C123 HAS_SYN))
         \<and> set (graph_objects (graph \<lparr>graph = ex_output, processed_count = 1\<rparr>) ex_C123 IAO_DEF)
             = insert ([ex_long, ex_short] ! k)
                 (set (graph_objects (graph ex_long_first_run) ex_C123 IAO_DEF))
         \<and> (ex_C123, HAS_SYN, [ex_long, ex_short] ! i)
             \<in> set (graph \<lparr>graph = ex_output, processed_count = 1\<rparr>)
         \<and> (ex_C123, IAO_DEF, [ex_long, ex_short] ! k)
             \<in> set (graph \<lparr>graph = ex_output, processed_count = 1\<rparr>)
         \<and> processed_count \<lparr>graph = ex_output, processed_count = 1\<rparr>
             = processed_count ex_long_first_run + 1)"
proof -
  have body: "migrate_body ex_C123 ex_long_first_run
      = Inr \<lparr>graph = ex_output, processed_count = 1\<rparr>"
    by code_simp
  have coms: "[ex_long, ex_short] = graph_objects (graph ex_long_first_run) ex_C123 RDFS_comment"
    by code_simp
  have len: "2 \<le> length [ex_long, ex_short]"
    by simp
  have evaluated: "migrate_body ex_C123 ex_long_first_run = Inr \<lparr>graph = ex_output, processed_count = 1\<rparr>
    \<and> graph_objects ex_output ex_C123 HAS_SYN = [ex_short]
    \<and> graph_objects ex_output ex_C123 IAO_DEF = [ex_long]
    \<and> (case migrate_body ex_C123 ex_tie_run of
          Inl e \<Rightarrow> False
        | Inr r' \<Rightarrow>
            graph_objects (graph r') ex_C123 HAS_SYN = [Literal ''HPV16'' None None]
          \<and> graph_objects (graph r') ex_C123 IAO_DEF = [Literal ''HPV18'' None None]
          \<and> graph_objects (graph r') ex_C123 RDFS_comment = [])"
    by code_simp
  from evaluated name_and_definition_choice [OF body coms len] show ?thesis
    by (rule conjI)
qed

section \<open>Cleaning up the see-also triple\<close>

text \<open>
  What the three removals of lines 92 to 94 reach: the two chosen comment triples, and
  the see-also triple whose object is the plain literal with the text that was read.
\<close>

lemma rewrite_class_removes:
  "(cls, RDFS_comment, n) \<notin> set (rewrite_class g cls n d raw)
   \<and> (cls, RDFS_comment, d) \<notin> set (rewrite_class g cls n d raw)
   \<and> (cls, RDFS_seeAlso, Literal raw None None) \<notin> set (rewrite_class g cls n d raw)"
  by (simp add: rewrite_class_def set_graph_remove)

text \<open>
  C3. The claim fails on the code where the see-also object is not a plain literal: line 94
  removes \<open>(cls, seeAlso, Literal(str(object)))\<close>, a triple the graph does not hold when
  the object is an IRI or a language-tagged literal, so the class is processed and its
  see-also triple is still in the output.
\<close>

theorem seeAlso_object_not_removed:
  "(case migrate_pass (Graph_parse ex_iri_input) of
      Inl e \<Rightarrow> False
    | Inr r \<Rightarrow> processed_count r = 1
        \<and> (ex_C123, RDFS_seeAlso, URIRef ''http://purl.obolibrary.org/obo/NCIT_C999'')
             \<in> set (graph r))
   \<and> (case migrate_pass (Graph_parse ex_lang_input) of
      Inl e \<Rightarrow> False
    | Inr r \<Rightarrow> processed_count r = 1
        \<and> (ex_C123, RDFS_seeAlso, Literal ''C999'' (Some ''en'') None) \<in> set (graph r))"
  by code_simp


section \<open>Subjects with several see-also triples\<close>

text \<open>
  Each entry of the enumeration is visited once and raises the counter by at most one, so
  an enumeration without repetitions would count no subject twice.
\<close>

lemma migrate_loop_count_le:
  "migrate_loop subjs r = Inr r' \<Longrightarrow> processed_count r' \<le> processed_count r + length subjs"
proof (induction subjs arbitrary: r)
  case Nil
  then show ?case by simp
next
  case (Cons c rest)
  from Cons.prems obtain r1 where body: "migrate_body c r = Inr r1"
    and loop: "migrate_loop rest r1 = Inr r'"
    by (auto split: sum.splits)
  have "processed_count r1 \<le> processed_count r + 1"
    using body by (cases rule: migrate_body_cases) simp_all
  with Cons.IH [OF loop] show ?case by simp
qed

text \<open>
  A later visit is dropped when an earlier pass has removed its see-also triple: here the
  class has two see-also triples and four comments and is rewritten once.
\<close>

lemma late_visit_dropped:
  "graph_subjects (Graph_parse ex_late_input) RDFS_seeAlso = [ex_B, ex_C123, ex_C123]
   \<and> (case migrate_pass (Graph_parse ex_late_input) of
        Inl e \<Rightarrow> False
      | Inr r \<Rightarrow> processed_count r = 1 \<and> length (graph r) = 16)"
  by code_simp

text \<open>
  C4. The claim fails on the code: the enumeration of line 74 yields a subject once for
  each of its see-also triples that is in the store when the object of the triple is
  reached. A class with two see-also triples and four comments is visited twice and
  rewritten twice: the counter reaches 2 for one class, which gets two synonyms and four
  axiom nodes.
\<close>

theorem subject_processed_twice:
  "graph_subjects (Graph_parse ex_twice_input) RDFS_seeAlso = [ex_C123, ex_C123]
   \<and> (case migrate_pass (Graph_parse ex_twice_input) of
        Inl e \<Rightarrow> False
      | Inr r \<Rightarrow> processed_count r = 2
          \<and> graph_objects (graph r) ex_C123 HAS_SYN
              = [Literal ''HPV'' None None, Literal ''Papillomavirus'' None None]
          \<and> length (graph_subjects (graph r) RDF_type) = 4)"
  by code_simp

section \<open>Classes that are skipped\<close>

text \<open>
  C5. For a class of the loaded graph that has a see-also triple and fewer than two
  comments, the pass returns, the triples with that class as subject are the same before
  and after, in the same order, and the class is not counted: the counter is at most the
  number of see-also triples of the other subjects.
\<close>

theorem skip_invariant:
  assumes "cls \<in> set (graph_subjects (Graph_parse stmts) RDFS_seeAlso)"
    and "length (graph_objects (Graph_parse stmts) cls RDFS_comment) < 2"
  shows "\<exists>r. migrate_pass (Graph_parse stmts) = Inr r
           \<and> filter (\<lambda>t. fst t = cls) (graph r) = filter (\<lambda>t. fst t = cls) (Graph_parse stmts)
           \<and> processed_count r
               \<le> length (filter (\<lambda>c. c \<noteq> cls) (graph_subjects (Graph_parse stmts) RDFS_seeAlso))"
proof -
  obtain r where r: "migrate_pass (Graph_parse stmts) = Inr r"
    using migrate_pass_total [OF distinct_Graph_parse] by blast
  have mem: "cls \<in> fst ` set (graph \<lparr>graph = Graph_parse stmts, processed_count = 0\<rparr>)"
    using assms(1) by (auto simp: graph_subjects_def)
  have few: "length (graph_objects (graph \<lparr>graph = Graph_parse stmts, processed_count = 0\<rparr>)
       cls RDFS_comment) < 2"
    using assms(2) by simp
  have d: "distinct (graph_predicate_objects (Graph_parse stmts) RDFS_seeAlso)"
    by (simp add: graph_predicate_objects_def distinct_first_seen)
  note fr = migrate_objects_frame [OF r [unfolded migrate_pass_def] d mem few]
  have "processed_count r
      \<le> length (filter (\<lambda>c. c \<noteq> cls) (graph_subjects (Graph_parse stmts) RDFS_seeAlso))"
    using fr length_visits_le [of RDFS_seeAlso cls
        "set (graph_predicate_objects (Graph_parse stmts) RDFS_seeAlso)" "Graph_parse stmts"]
    by simp
  with fr r show ?thesis by simp
qed

theorem skip_invariant_witness:
  "ex_C456 \<in> set (graph_subjects (Graph_parse ex_skip_input) RDFS_seeAlso)
   \<and> length (graph_objects (Graph_parse ex_skip_input) ex_C456 RDFS_comment) < 2
   \<and> (\<exists>r. migrate_pass (Graph_parse ex_skip_input) = Inr r
         \<and> filter (\<lambda>t. fst t = ex_C456) (graph r)
             = filter (\<lambda>t. fst t = ex_C456) (Graph_parse ex_skip_input)
         \<and> processed_count r
             \<le> length (filter (\<lambda>c. c \<noteq> ex_C456)
                  (graph_subjects (Graph_parse ex_skip_input) RDFS_seeAlso)))"
proof -
  have a: "ex_C456 \<in> set (graph_subjects (Graph_parse ex_skip_input) RDFS_seeAlso)"
    by code_simp
  have b: "length (graph_objects (Graph_parse ex_skip_input) ex_C456 RDFS_comment) < 2"
    by code_simp
  from skip_invariant [OF a b] a b show ?thesis by blast
qed

section \<open>What migrate returns\<close>

text \<open>
  C6 (as amended). \<open>migrate\<close> has no return statement. On every run that ends normally it
  returns \<^verbatim>\<open>None\<close>; the processed counter is printed in the line
  \<^verbatim>\<open>Processed N classes\<close>, after the graph is written. The counter is the number of
  passes of the loop body that rewrote their subject: the written graph has two
  \<^verbatim>\<open>rdf:type\<close> triples (the two axiom nodes) more than the loaded one for each.
\<close>

theorem migrate_returns_None:
  assumes "snd (migrate env in_path out_path) = Returned v"
  shows "v = PyNone
       \<and> (\<exists>stmts r. parse_file env in_path = Inr stmts
             \<and> migrate_pass (Graph_parse stmts) = Inr r
             \<and> fst (migrate env in_path out_path) =
                 [ReadFile in_path, Print (Loaded in_path), WriteFile out_path (graph r),
                  Print (Processed (processed_count r)), Print (Saved out_path)]
             \<and> length (graph_subjects (graph r) RDF_type)
                 = length (graph_subjects (Graph_parse stmts) RDF_type) + 2 * processed_count r)"
proof -
  from assms obtain stmts r where p: "parse_file env in_path = Inr stmts"
    and m: "migrate_pass (Graph_parse stmts) = Inr r"
    and w: "serialize_file env out_path (graph r) = None"
    by (auto simp: migrate_def Let_def split: sum.splits option.splits)
  have v: "v = PyNone" using assms by (simp add: migrate_def p m w)
  have ev: "fst (migrate env in_path out_path) =
                 [ReadFile in_path, Print (Loaded in_path), WriteFile out_path (graph r),
                  Print (Processed (processed_count r)), Print (Saved out_path)]"
    by (simp add: migrate_def p m w)
  have "length (graph_subjects (graph r) RDF_type)
                 = length (graph_subjects (Graph_parse stmts) RDF_type) + 2 * processed_count r"
    using migrate_objects_axioms [OF m [unfolded migrate_pass_def]] by simp
  with v p m ev show ?thesis by blast
qed


theorem migrate_returns_None_witness:
  "snd (migrate (ok_env ex_input) ''_hpvco.rdf'' ''hpvco.rdf'') = Returned PyNone
   \<and> (\<exists>stmts r. parse_file (ok_env ex_input) ''_hpvco.rdf'' = Inr stmts
             \<and> migrate_pass (Graph_parse stmts) = Inr r
             \<and> fst (migrate (ok_env ex_input) ''_hpvco.rdf'' ''hpvco.rdf'') =
                 [ReadFile ''_hpvco.rdf'', Print (Loaded ''_hpvco.rdf''),
                  WriteFile ''hpvco.rdf'' (graph r),
                  Print (Processed (processed_count r)), Print (Saved ''hpvco.rdf'')]
             \<and> length (graph_subjects (graph r) RDF_type)
                 = length (graph_subjects (Graph_parse stmts) RDF_type) + 2 * processed_count r)"
proof -
  have a: "snd (migrate (ok_env ex_input) ''_hpvco.rdf'' ''hpvco.rdf'') = Returned PyNone"
    by (simp add: migrate_def ok_env_def ex_pass)
  from migrate_returns_None [OF a] a show ?thesis by blast
qed


text \<open>
  C6 fails as stated: on the scenario the counter is 1 and is printed, and the value
  returned is \<^verbatim>\<open>None\<close>, not 1.
\<close>

theorem migrate_returns_count_counterexample:
  "snd (migrate (ok_env ex_input) ''_hpvco.rdf'' ''hpvco.rdf'') = Returned PyNone
   \<and> Print (Processed 1) \<in> set (fst (migrate (ok_env ex_input) ''_hpvco.rdf'' ''hpvco.rdf''))
   \<and> snd (migrate (ok_env ex_input) ''_hpvco.rdf'' ''hpvco.rdf'') \<noteq> Returned (PyInt 1)"
  by (simp add: migrate_def ok_env_def ex_pass)

section \<open>Pre-flight validation\<close>

text \<open>
  C9. When the source path does not exist or is not a regular file, \<open>main\<close> prints one
  line and leaves with exit code 1: nothing is read, no directory is made and no file is
  written.
\<close>

theorem preflight_failure:
  "\<not> path_exists env source_file \<or> \<not> path_is_file env source_file \<Longrightarrow>
     snd (main env source_file destination_file verbose) = SysExit 1
     \<and> exit_code (snd (main env source_file destination_file verbose)) = 1
     \<and> filter writes (fst (main env source_file destination_file verbose)) = []
     \<and> ReadFile source_file \<notin> set (fst (main env source_file destination_file verbose))
     \<and> (\<exists>m. fst (main env source_file destination_file verbose) = [Print m])"
  by (auto simp: main_def)


theorem preflight_failure_witness:
  "\<not> path_exists missing_env ''missing.rdf''
   \<and> main missing_env ''missing.rdf'' ''out/hpvco.rdf'' True
       = ([Print (DoesNotExist ''missing.rdf'')], SysExit 1)
   \<and> exit_code (snd (main missing_env ''missing.rdf'' ''out/hpvco.rdf'' True)) = 1
   \<and> filter writes (fst (main missing_env ''missing.rdf'' ''out/hpvco.rdf'' True)) = []"
  using preflight_failure [of missing_env "''missing.rdf''" "''out/hpvco.rdf''" True]
  by (simp add: missing_env_def main_def)

end
